theory Spec2Isabelle
  imports Main "HOL-Library.Extended_Nat" "HOL-Library.Multiset"
begin

section \<open>Hospital distribution on a grid: the model\<close>

text \<open>
  The two source files \<^verbatim>\<open>profundisacion.py\<close> and \<^verbatim>\<open>profundizacion.py\<close> contain the same
  classes \<^verbatim>\<open>Coordinate\<close> and \<^verbatim>\<open>HospitalDistribution\<close>, line for line; they differ only in the
  graphical front end. The definitions below follow that shared code.

  Exceptions of the Python code are values of type \<open>error\<close>, and a function that can raise
  returns \<open>error + 'a\<close>, with \<open>Inl\<close> for the exception.
\<close>

datatype error = ValueError | IndexError | KeyError

definition bind_err :: "error + 'a \<Rightarrow> ('a \<Rightarrow> error + 'b) \<Rightarrow> error + 'b" where
  "bind_err m f = (case m of Inl e \<Rightarrow> Inl e | Inr v \<Rightarrow> f v)"

subsection \<open>Coordinate\<close>

text \<open>
  A \<^verbatim>\<open>Coordinate\<close> object has the two fields \<^verbatim>\<open>x\<close> and \<^verbatim>\<open>y\<close>, which are never assigned
  after construction. The class defines neither \<^verbatim>\<open>__eq__\<close> nor \<^verbatim>\<open>__hash__\<close>, so Python
  compares and hashes its objects by identity. The model therefore carries the identity
  of the object in the field \<open>coord_id\<close>; the fields \<^verbatim>\<open>x\<close> and \<^verbatim>\<open>y\<close> are called \<open>coord_x\<close>
  and \<open>coord_y\<close>.
\<close>

record coordinate =
  coord_id :: nat
  coord_x :: int
  coord_y :: int

definition distance_to :: "coordinate \<Rightarrow> coordinate \<Rightarrow> int" where
  "distance_to self other =
     \<bar>coord_x self - coord_x other\<bar> + \<bar>coord_y self - coord_y other\<bar>"

text \<open>The inherited \<^verbatim>\<open>object.__eq__\<close> and \<^verbatim>\<open>object.__hash__\<close>: both look at the identity only.\<close>

definition coordinate_eq :: "coordinate \<Rightarrow> coordinate \<Rightarrow> bool" where
  "coordinate_eq a b = (coord_id a = coord_id b)"

definition coordinate_hash :: "coordinate \<Rightarrow> nat" where
  "coordinate_hash a = coord_id a"

subsection \<open>Python sets of Coordinate objects\<close>

text \<open>
  A Python \<^verbatim>\<open>set\<close> of coordinates is a list of its members without repetition, where
  membership is decided by \<open>coordinate_eq\<close>. \<^verbatim>\<open>add\<close> of a member changes nothing,
  \<^verbatim>\<open>remove\<close> of a non-member raises \<^verbatim>\<open>KeyError\<close>, \<^verbatim>\<open>len\<close> is the length of the list.
\<close>

definition set_contains :: "coordinate list \<Rightarrow> coordinate \<Rightarrow> bool" where
  "set_contains cs c = list_ex (\<lambda>d. coordinate_eq d c) cs"

definition set_add :: "coordinate \<Rightarrow> coordinate list \<Rightarrow> coordinate list" where
  "set_add c cs = (if set_contains cs c then cs else cs @ [c])"

definition set_remove :: "coordinate \<Rightarrow> coordinate list \<Rightarrow> error + coordinate list" where
  "set_remove c cs =
     (if set_contains cs c then Inr (filter (\<lambda>d. \<not> coordinate_eq d c) cs)
      else Inl KeyError)"

subsection \<open>The grid: a list of rows\<close>

text \<open>
  Python list indexing: an index \<open>i\<close> with \<open>- n \<le> i < 0\<close> counts from the end, any index
  outside \<open>- n \<le> i < n\<close> raises \<^verbatim>\<open>IndexError\<close>.
\<close>

definition py_index :: "nat \<Rightarrow> int \<Rightarrow> nat option" where
  "py_index n i =
     (if 0 \<le> i \<and> i < int n then Some (nat i)
      else if - int n \<le> i \<and> i < 0 then Some (nat (int n + i))
      else None)"

definition grid_get :: "int list list \<Rightarrow> int \<Rightarrow> int \<Rightarrow> error + int" where
  "grid_get g i j =
     (case py_index (length g) i of
        None \<Rightarrow> Inl IndexError
      | Some a \<Rightarrow>
          (case py_index (length (g ! a)) j of
             None \<Rightarrow> Inl IndexError
           | Some b \<Rightarrow> Inr (g ! a ! b)))"

definition grid_set :: "int list list \<Rightarrow> int \<Rightarrow> int \<Rightarrow> int \<Rightarrow> error + int list list" where
  "grid_set g i j v =
     (case py_index (length g) i of
        None \<Rightarrow> Inl IndexError
      | Some a \<Rightarrow>
          (case py_index (length (g ! a)) j of
             None \<Rightarrow> Inl IndexError
           | Some b \<Rightarrow> Inr (g[a := (g ! a)[b := v]])))"

subsection \<open>HospitalDistribution\<close>

text \<open>
  The fields of the class, with the names of the source. \<open>next_id\<close> is not a field of the
  Python object: it is the identity that the next constructed \<^verbatim>\<open>Coordinate\<close> receives, so
  that every constructor call yields an object different from all earlier ones.
\<close>

record hospital_distribution =
  rows :: int
  cols :: int
  num_hospitals :: int
  num_houses :: int
  grid :: "int list list"
  hospitals :: "coordinate list"
  houses :: "coordinate list"
  MIN_HOSPITAL_DISTANCE :: int
  MAX_HOUSE_HOSPITAL_DISTANCE :: int
  next_id :: nat

text \<open>\<^verbatim>\<open>HospitalDistribution.__init__\<close>; \<^verbatim>\<open>range\<close> of a negative number is empty.\<close>

definition HospitalDistribution :: "int \<Rightarrow> int \<Rightarrow> int \<Rightarrow> int \<Rightarrow> hospital_distribution" where
  "HospitalDistribution r c nhospitals nhouses =
     \<lparr> rows = r, cols = c, num_hospitals = nhospitals, num_houses = nhouses,
       grid = replicate (nat r) (replicate (nat c) 0),
       hospitals = [], houses = [],
       MIN_HOSPITAL_DISTANCE = 3, MAX_HOUSE_HOSPITAL_DISTANCE = 5,
       next_id = 0 \<rparr>"

text \<open>\<^verbatim>\<open>Coordinate(x, y)\<close>: a new object, and the state with the next free identity.\<close>

definition Coordinate ::
  "hospital_distribution \<Rightarrow> int \<Rightarrow> int \<Rightarrow> coordinate \<times> hospital_distribution" where
  "Coordinate s x y =
     (\<lparr> coord_id = next_id s, coord_x = x, coord_y = y \<rparr>, s\<lparr>next_id := Suc (next_id s)\<rparr>)"

subsection \<open>Validity of a hospital position and the score\<close>

text \<open>
  \<^verbatim>\<open>_is_valid_hospital_position\<close>: the cell must hold 0, and no hospital of the set may be
  closer than \<^verbatim>\<open>MIN_HOSPITAL_DISTANCE\<close>. The loop returns \<^verbatim>\<open>False\<close> at the first hospital
  that is too close.
\<close>

fun all_far :: "int \<Rightarrow> coordinate \<Rightarrow> coordinate list \<Rightarrow> bool" where
  "all_far d pos [] = True"
| "all_far d pos (hospital # rest) =
     (if distance_to pos hospital < d then False else all_far d pos rest)"

definition is_valid_hospital_position ::
  "hospital_distribution \<Rightarrow> coordinate \<Rightarrow> error + bool" where
  "is_valid_hospital_position s pos =
     bind_err (grid_get (grid s) (coord_x pos) (coord_y pos)) (\<lambda>v.
       if v \<noteq> 0 then Inr False
       else Inr (all_far (MIN_HOSPITAL_DISTANCE s) pos (hospitals s)))"

text \<open>
  The loop above and the two loops of the score below run over a Python set. They are
  written over the list of its members; their results do not depend on the order of that
  list (lemmas \<open>all_far_iff\<close> and \<open>calculate_score_mset\<close>).
\<close>

text \<open>
  \<^verbatim>\<open>_calculate_score\<close>. The inner loop starts from \<^verbatim>\<open>float('inf')\<close> and takes minima with
  non-negative integers; the outer loop adds these minima to the integer 0. The values
  that occur are the non-negative integers and \<open>+inf\<close>, which is the type \<open>enat\<close>, with the
  same \<open>min\<close>, \<open>+\<close> and \<open><\<close>.
\<close>

definition min_distance :: "coordinate \<Rightarrow> coordinate list \<Rightarrow> enat" where
  "min_distance house hs =
     fold (\<lambda>hospital m. min m (enat (nat (distance_to house hospital)))) hs \<infinity>"

definition calculate_score :: "hospital_distribution \<Rightarrow> enat" where
  "calculate_score s =
     fold (\<lambda>house total_distance. total_distance + min_distance house (hospitals s))
       (houses s) 0"

subsection \<open>initialize_random_positions\<close>

text \<open>
  The random numbers are an input of the model: a list of natural numbers, one for each
  call of \<^verbatim>\<open>random.randint\<close>. \<^verbatim>\<open>randint(lo, hi)\<close> raises \<^verbatim>\<open>ValueError\<close> on an empty range;
  otherwise it consumes the next number \<open>r\<close> and returns \<open>lo + r mod (hi - lo + 1)\<close>, so
  every list is a legal run and every legal run is given by some list. When the list is
  used up while a loop is still running the result is \<open>None\<close>: the call has not returned
  yet.
\<close>

definition randint :: "int \<Rightarrow> int \<Rightarrow> nat list \<Rightarrow> (error + int \<times> nat list) option" where
  "randint lo hi ds =
     (if hi < lo then Some (Inl ValueError)
      else case ds of
             [] \<Rightarrow> None
           | r # ds' \<Rightarrow> Some (Inr (lo + int r mod (hi - lo + 1), ds')))"

text \<open>One accepted or rejected sample of the first loop (the body of the \<^verbatim>\<open>while\<close>).\<close>

definition place_hospital ::
  "hospital_distribution \<Rightarrow> int \<Rightarrow> int \<Rightarrow> error + hospital_distribution" where
  "place_hospital s x y =
     (case Coordinate s x y of (new_pos, s0) \<Rightarrow>
        bind_err (is_valid_hospital_position s0 new_pos) (\<lambda>valid.
          if valid then
            bind_err (grid_set (grid s0) x y 2) (\<lambda>g.
              Inr (s0\<lparr>hospitals := set_add new_pos (hospitals s0), grid := g\<rparr>))
          else Inr s0))"

definition place_house ::
  "hospital_distribution \<Rightarrow> int \<Rightarrow> int \<Rightarrow> error + hospital_distribution" where
  "place_house s x y =
     (case Coordinate s x y of (new_pos, s0) \<Rightarrow>
        bind_err (grid_get (grid s0) x y) (\<lambda>v.
          if v = 0 then
            bind_err (grid_set (grid s0) x y 1) (\<lambda>g.
              Inr (s0\<lparr>houses := set_add new_pos (houses s0), grid := g\<rparr>))
          else Inr s0))"

function place_hospitals ::
  "nat list \<Rightarrow> hospital_distribution \<Rightarrow> (error + hospital_distribution \<times> nat list) option" where
  "place_hospitals ds s =
     (if int (length (hospitals s)) < num_hospitals s then
        (case randint 0 (rows s - 1) ds of
           None \<Rightarrow> None
         | Some (Inl e) \<Rightarrow> Some (Inl e)
         | Some (Inr (x, ds1)) \<Rightarrow>
             (case randint 0 (cols s - 1) ds1 of
                None \<Rightarrow> None
              | Some (Inl e) \<Rightarrow> Some (Inl e)
              | Some (Inr (y, ds2)) \<Rightarrow>
                  (case place_hospital s x y of
                     Inl e \<Rightarrow> Some (Inl e)
                   | Inr s' \<Rightarrow> place_hospitals ds2 s')))
      else Some (Inr (s, ds)))"
  by pat_completeness auto
termination
  by (relation "measure (\<lambda>(ds, s). length ds)") (auto simp: randint_def split: if_splits list.splits)

function place_houses ::
  "nat list \<Rightarrow> hospital_distribution \<Rightarrow> (error + hospital_distribution \<times> nat list) option" where
  "place_houses ds s =
     (if int (length (houses s)) < num_houses s then
        (case randint 0 (rows s - 1) ds of
           None \<Rightarrow> None
         | Some (Inl e) \<Rightarrow> Some (Inl e)
         | Some (Inr (x, ds1)) \<Rightarrow>
             (case randint 0 (cols s - 1) ds1 of
                None \<Rightarrow> None
              | Some (Inl e) \<Rightarrow> Some (Inl e)
              | Some (Inr (y, ds2)) \<Rightarrow>
                  (case place_house s x y of
                     Inl e \<Rightarrow> Some (Inl e)
                   | Inr s' \<Rightarrow> place_houses ds2 s')))
      else Some (Inr (s, ds)))"
  by pat_completeness auto
termination
  by (relation "measure (\<lambda>(ds, s). length ds)") (auto simp: randint_def split: if_splits list.splits)

definition initialize_random_positions ::
  "nat list \<Rightarrow> hospital_distribution \<Rightarrow> (error + hospital_distribution) option" where
  "initialize_random_positions ds s =
     (case place_hospitals ds s of
        None \<Rightarrow> None
      | Some (Inl e) \<Rightarrow> Some (Inl e)
      | Some (Inr (s1, ds1)) \<Rightarrow>
          (case place_houses ds1 s1 of
             None \<Rightarrow> None
           | Some (Inl e) \<Rightarrow> Some (Inl e)
           | Some (Inr (s2, ds2)) \<Rightarrow> Some (Inr s2)))"

subsection \<open>optimize_distribution\<close>

text \<open>
  The local variables of \<^verbatim>\<open>optimize_distribution\<close> that live across the candidates of one
  hospital: the model, \<^verbatim>\<open>best_score\<close>, \<^verbatim>\<open>best_new_pos\<close> (\<open>None\<close> as in the source) and
  \<^verbatim>\<open>improved\<close>.
\<close>

type_synonym search_state = "hospital_distribution \<times> enat \<times> coordinate option \<times> bool"

text \<open>
  The body of the two inner loops for one offset \<open>(dx, dy)\<close>: the bounds test, the
  simulated move, the comparison with \<^verbatim>\<open>best_score\<close>, and the two reverts.
\<close>

definition try_candidate ::
  "coordinate \<Rightarrow> int \<times> int \<Rightarrow> search_state \<Rightarrow> error + search_state" where
  "try_candidate old_pos d st =
     (case (d, st) of ((dx, dy), (s, best_score, best_new_pos, improved)) \<Rightarrow>
        let new_x = coord_x old_pos + dx;
            new_y = coord_y old_pos + dy
        in
          if 0 \<le> new_x \<and> new_x < rows s \<and> 0 \<le> new_y \<and> new_y < cols s then
            (case Coordinate s new_x new_y of (new_pos, s0) \<Rightarrow>
               bind_err (set_remove old_pos (hospitals s0)) (\<lambda>hs1.
               bind_err (grid_set (grid s0) (coord_x old_pos) (coord_y old_pos) 0) (\<lambda>g1.
               let s1 = s0\<lparr>hospitals := hs1, grid := g1\<rparr> in
               bind_err (is_valid_hospital_position s1 new_pos) (\<lambda>valid.
               bind_err
                 (if valid then
                    bind_err (grid_set (grid s1) (coord_x new_pos) (coord_y new_pos) 2) (\<lambda>g2.
                    let s2 = s1\<lparr>hospitals := set_add new_pos (hospitals s1), grid := g2\<rparr>;
                        new_score = calculate_score s2;
                        found = (if new_score < best_score
                                 then (new_score, Some new_pos, True)
                                 else (best_score, best_new_pos, improved))
                    in
                    bind_err (set_remove new_pos (hospitals s2)) (\<lambda>hs3.
                    bind_err (grid_set (grid s2) (coord_x new_pos) (coord_y new_pos) 0) (\<lambda>g3.
                      Inr (s2\<lparr>hospitals := hs3, grid := g3\<rparr>, found))))
                  else Inr (s1, best_score, best_new_pos, improved))
                 (\<lambda>(s4, found).
               bind_err (grid_set (grid s4) (coord_x old_pos) (coord_y old_pos) 2) (\<lambda>g5.
                 Inr (s4\<lparr>hospitals := set_add old_pos (hospitals s4), grid := g5\<rparr>, found)))))))
          else Inr st)"

text \<open>A \<^verbatim>\<open>for\<close> loop whose body can raise: the first exception ends the loop.\<close>

fun for_each :: "('a \<Rightarrow> 'b \<Rightarrow> error + 'b) \<Rightarrow> 'a list \<Rightarrow> 'b \<Rightarrow> error + 'b" where
  "for_each body [] st = Inr st"
| "for_each body (a # as) st = bind_err (body a st) (for_each body as)"

text \<open>The offsets in the order of \<^verbatim>\<open>for dx in [-1, 0, 1]: for dy in [-1, 0, 1]\<close>.\<close>

definition offsets :: "(int \<times> int) list" where
  "offsets = concat (map (\<lambda>dx. map (\<lambda>dy. (dx, dy)) [-1, 0, 1]) [-1, 0, 1])"

text \<open>
  The body of \<^verbatim>\<open>for hospital in list(self.hospitals)\<close>: \<^verbatim>\<open>best_new_pos = None\<close>, the
  search of the neighbourhood, and the move to \<^verbatim>\<open>best_new_pos\<close> when there is one (an
  object of class \<^verbatim>\<open>Coordinate\<close> is always true in \<^verbatim>\<open>if best_new_pos:\<close>).
\<close>

definition relocate ::
  "coordinate \<Rightarrow> hospital_distribution \<times> enat \<times> bool \<Rightarrow>
     error + hospital_distribution \<times> enat \<times> bool" where
  "relocate hospital st =
     (case st of (s, best_score, improved) \<Rightarrow>
        let old_pos = hospital in
        bind_err (for_each (try_candidate old_pos) offsets (s, best_score, None, improved))
          (\<lambda>(s1, best_score1, best_new_pos, improved1).
             case best_new_pos of
               None \<Rightarrow> Inr (s1, best_score1, improved1)
             | Some new_pos \<Rightarrow>
                 bind_err (set_remove old_pos (hospitals s1)) (\<lambda>hs2.
                 bind_err (grid_set (grid s1) (coord_x old_pos) (coord_y old_pos) 0) (\<lambda>g2.
                 let hs3 = set_add new_pos hs2 in
                 bind_err (grid_set g2 (coord_x new_pos) (coord_y new_pos) 2) (\<lambda>g3.
                   Inr (s1\<lparr>hospitals := hs3, grid := g3\<rparr>, best_score1, improved1))))))"

text \<open>
  One sweep: the body of \<^verbatim>\<open>while improved\<close>. The order in which Python iterates over a
  set is not specified; \<open>ord\<close> stands for \<^verbatim>\<open>list(...)\<close> and returns the members of the set in
  the order of the sweep. Any function that only permutes its argument is a legal order.
\<close>

definition iteration_order :: "(coordinate list \<Rightarrow> coordinate list) \<Rightarrow> bool" where
  "iteration_order ord = (\<forall>cs. mset (ord cs) = mset cs)"

definition sweep ::
  "(coordinate list \<Rightarrow> coordinate list) \<Rightarrow> hospital_distribution \<Rightarrow> enat \<Rightarrow>
     error + hospital_distribution \<times> enat \<times> bool" where
  "sweep ord s best_score = for_each relocate (ord (hospitals s)) (s, best_score, False)"

text \<open>
  The \<^verbatim>\<open>while improved\<close> loop. It is defined as a partial function, so that a loop that
  does not end has the value \<open>None\<close>; that it does end is a theorem below.
\<close>

partial_function (option) while_improved ::
  "(coordinate list \<Rightarrow> coordinate list) \<Rightarrow> hospital_distribution \<Rightarrow> enat \<Rightarrow>
     (error + hospital_distribution) option" where
  "while_improved ord s best_score =
     (case sweep ord s best_score of
        Inl e \<Rightarrow> Some (Inl e)
      | Inr (s', best_score', improved) \<Rightarrow>
          if improved then while_improved ord s' best_score' else Some (Inr s'))"

declare while_improved.simps [code]

definition optimize_distribution ::
  "(coordinate list \<Rightarrow> coordinate list) \<Rightarrow> hospital_distribution \<Rightarrow>
     (error + hospital_distribution) option" where
  "optimize_distribution ord s = while_improved ord s (calculate_score s)"

declare place_hospitals.simps [simp del] place_houses.simps [simp del]

section \<open>Invariants and auxiliary notions\<close>

subsection \<open>Cells of a rectangular grid\<close>

text \<open>
  \<open>grid_dims g r c\<close>: the grid has \<open>r\<close> rows of \<open>c\<close> cells each, as \<^verbatim>\<open>__init__\<close> builds it.
  Inside such a grid, reading and writing a cell never raise; \<open>cell\<close> and \<open>upd\<close> are
  the value read and the grid written.
\<close>

definition grid_dims :: "int list list \<Rightarrow> int \<Rightarrow> int \<Rightarrow> bool" where
  "grid_dims g r c = (length g = nat r \<and> list_all (\<lambda>row. length row = nat c) g)"

definition in_grid :: "hospital_distribution \<Rightarrow> int \<Rightarrow> int \<Rightarrow> bool" where
  "in_grid s x y = (0 \<le> x \<and> x < rows s \<and> 0 \<le> y \<and> y < cols s)"

definition cell :: "int list list \<Rightarrow> int \<Rightarrow> int \<Rightarrow> int" where
  "cell g x y = g ! nat x ! nat y"

definition upd :: "int list list \<Rightarrow> int \<Rightarrow> int \<Rightarrow> int \<Rightarrow> int list list" where
  "upd g x y v = g[nat x := (g ! nat x)[nat y := v]]"

subsection \<open>Well-formed models\<close>

text \<open>
  The invariants of the data model: the grid is rectangular with the declared dimensions,
  the objects of each set are distinct, every hospital lies inside the grid on a cell
  holding 2 and every house on a cell of its own holding 1, and two different hospitals are
  at Manhattan distance at least 3. Identities in use are below \<open>next_id\<close>, which is what
  makes a newly constructed object different from all of them.
\<close>

definition well_formed :: "hospital_distribution \<Rightarrow> bool" where
  "well_formed s =
     (grid_dims (grid s) (rows s) (cols s) \<and>
      MIN_HOSPITAL_DISTANCE s = 3 \<and>
      distinct (map coord_id (hospitals s)) \<and>
      distinct (map coord_id (houses s)) \<and>
      distinct (map (\<lambda>c. (coord_x c, coord_y c)) (houses s)) \<and>
      (\<forall>h\<in>set (hospitals s).
         coord_id h < next_id s \<and> in_grid s (coord_x h) (coord_y h) \<and>
         cell (grid s) (coord_x h) (coord_y h) = 2) \<and>
      (\<forall>h\<in>set (hospitals s). \<forall>h'\<in>set (hospitals s).
         coord_id h \<noteq> coord_id h' \<longrightarrow> 3 \<le> distance_to h h') \<and>
      (\<forall>c\<in>set (houses s).
         coord_id c < next_id s \<and> in_grid s (coord_x c) (coord_y c) \<and>
         cell (grid s) (coord_x c) (coord_y c) = 1))"

text \<open>
  A placement of hospitals that respects the bounds of an \<open>r \<times> c\<close> grid and the minimum
  distance.
\<close>

definition placement :: "int \<Rightarrow> int \<Rightarrow> coordinate list \<Rightarrow> bool" where
  "placement r c hs =
     ((\<forall>h\<in>set hs. 0 \<le> coord_x h \<and> coord_x h < r \<and> 0 \<le> coord_y h \<and> coord_y h < c) \<and>
      distinct (map coord_id hs) \<and>
      (\<forall>h\<in>set hs. \<forall>h'\<in>set hs. coord_id h \<noteq> coord_id h' \<longrightarrow> 3 \<le> distance_to h h'))"

text \<open>The configuration fields, which initialization never assigns.\<close>

definition config_kept :: "hospital_distribution \<Rightarrow> hospital_distribution \<Rightarrow> bool" where
  "config_kept s s' =
     (rows s' = rows s \<and> cols s' = cols s \<and> num_hospitals s' = num_hospitals s \<and>
      num_houses s' = num_houses s \<and> MIN_HOSPITAL_DISTANCE s' = MIN_HOSPITAL_DISTANCE s \<and>
      MAX_HOUSE_HOSPITAL_DISTANCE s' = MAX_HOUSE_HOSPITAL_DISTANCE s)"

subsection \<open>What one candidate is worth\<close>

text \<open>
  \<open>others h cs\<close> is the set \<open>cs\<close> without the object \<open>h\<close>. \<open>candidate_score s h d\<close> is the
  score the search computes for the hospital \<open>h\<close> moved by the offset \<open>d\<close>, when that
  candidate is inside the grid and valid, and \<open>None\<close> otherwise; \<open>found_after\<close> is the
  effect of the candidate on \<^verbatim>\<open>best_score\<close>, \<^verbatim>\<open>best_new_pos\<close> and \<^verbatim>\<open>improved\<close>.
\<close>

definition others :: "coordinate \<Rightarrow> coordinate list \<Rightarrow> coordinate list" where
  "others h cs = filter (\<lambda>d. coord_id d \<noteq> coord_id h) cs"

definition candidate_score :: "hospital_distribution \<Rightarrow> coordinate \<Rightarrow> int \<times> int \<Rightarrow> enat option" where
  "candidate_score s h d =
     (let x = coord_x h + fst d; y = coord_y h + snd d;
          c = \<lparr>coord_id = 0, coord_x = x, coord_y = y\<rparr>;
          rest = others h (hospitals s)
      in if in_grid s x y \<and> cell (upd (grid s) (coord_x h) (coord_y h) 0) x y = 0 \<and>
            all_far (MIN_HOSPITAL_DISTANCE s) c rest
         then Some (calculate_score (s\<lparr>hospitals := rest @ [c]\<rparr>))
         else None)"

definition found_after ::
  "hospital_distribution \<Rightarrow> coordinate \<Rightarrow> int \<times> int \<Rightarrow> enat \<times> coordinate option \<times> bool \<Rightarrow>
     enat \<times> coordinate option \<times> bool" where
  "found_after s h d f =
     (case candidate_score s h d of
        None \<Rightarrow> f
      | Some v \<Rightarrow>
          if v < fst f
          then (v, Some \<lparr>coord_id = next_id s, coord_x = coord_x h + fst d, coord_y = coord_y h + snd d\<rparr>, True)
          else f)"

definition improving :: "hospital_distribution \<Rightarrow> coordinate \<Rightarrow> enat \<Rightarrow> int \<times> int \<Rightarrow> bool" where
  "improving s h b d = (case candidate_score s h d of None \<Rightarrow> False | Some v \<Rightarrow> v < b)"

definition improved_by ::
  "hospital_distribution \<Rightarrow> hospital_distribution \<Rightarrow> coordinate \<Rightarrow> (int \<times> int) list \<Rightarrow>
   enat \<Rightarrow> enat \<times> coordinate option \<times> bool \<Rightarrow> bool" where
  "improved_by s s' h ds b f' =
     (fst f' < b \<and> snd (snd f') \<and>
      (\<exists>d\<in>set ds. \<exists>n. next_id s \<le> n \<and> n < next_id s' \<and>
         fst (snd f') = Some \<lparr>coord_id = n, coord_x = coord_x h + fst d, coord_y = coord_y h + snd d\<rparr> \<and>
         candidate_score s h d = Some (fst f')))"

text \<open>
  \<open>same_model s s'\<close>: the two states differ at most in the order in which the hospital
  set lists its members and in the identities handed out so far. \<open>frame s s'\<close>: what every
  step of the optimizer leaves alone. \<open>moved s h s' b'\<close>: in \<open>s'\<close> the hospital \<open>h\<close> of \<open>s\<close> is
  replaced by a new object one offset away, and the score of that candidate was \<open>b'\<close>.
\<close>

definition same_model :: "hospital_distribution \<Rightarrow> hospital_distribution \<Rightarrow> bool" where
  "same_model s s' =
     (s' = s\<lparr>hospitals := hospitals s', next_id := next_id s'\<rparr> \<and>
      mset (hospitals s') = mset (hospitals s) \<and> next_id s \<le> next_id s')"

definition frame :: "hospital_distribution \<Rightarrow> hospital_distribution \<Rightarrow> bool" where
  "frame s s' =
     (rows s' = rows s \<and> cols s' = cols s \<and> num_hospitals s' = num_hospitals s \<and>
      num_houses s' = num_houses s \<and> houses s' = houses s \<and>
      MIN_HOSPITAL_DISTANCE s' = MIN_HOSPITAL_DISTANCE s \<and>
      MAX_HOUSE_HOSPITAL_DISTANCE s' = MAX_HOUSE_HOSPITAL_DISTANCE s \<and>
      length (hospitals s') = length (hospitals s) \<and> next_id s \<le> next_id s')"

definition moved ::
  "hospital_distribution \<Rightarrow> coordinate \<Rightarrow> hospital_distribution \<Rightarrow> enat \<Rightarrow> bool" where
  "moved s h s' b' =
     (\<exists>d\<in>set offsets. \<exists>np.
        candidate_score s h d = Some b' \<and>
        coord_x np = coord_x h + fst d \<and> coord_y np = coord_y h + snd d \<and>
        next_id s \<le> coord_id np \<and>
        set (hospitals s') = insert np (set (hospitals s) - {h}))"

text \<open>No hospital has a valid neighbouring position with a strictly lower score.\<close>

definition locally_optimal :: "hospital_distribution \<Rightarrow> bool" where
  "locally_optimal s =
     (\<forall>h\<in>set (hospitals s). \<forall>d\<in>set offsets. \<not> improving s h (calculate_score s) d)"

subsection \<open>Reachable models\<close>

text \<open>
  The states a model goes through: the result of \<^verbatim>\<open>initialize_random_positions\<close> on a new
  object, for any dimensions, counts and random numbers; the result of a whole call of
  \<^verbatim>\<open>optimize_distribution\<close>, for any order of the sweeps; and, inside such a call, the
  result of the search and move for one hospital of the current set (with any values of
  the two local variables, which is more than the calls really see).
\<close>

inductive reachable :: "hospital_distribution \<Rightarrow> bool" where
  initialized:
    "initialize_random_positions ds (HospitalDistribution r c nh nho) = Some (Inr s) \<Longrightarrow> reachable s"
| optimized:
    "reachable s \<Longrightarrow> iteration_order ord \<Longrightarrow> optimize_distribution ord s = Some (Inr s') \<Longrightarrow>
       reachable s'"
| relocated:
    "reachable s \<Longrightarrow> h \<in> set (hospitals s) \<Longrightarrow> relocate h (s, b, i) = Inr (s', b', i') \<Longrightarrow>
       reachable s'"

text \<open>Every two different hospitals are at Manhattan distance at least 3.\<close>

definition hospitals_apart :: "hospital_distribution \<Rightarrow> bool" where
  "hospitals_apart s =
     (\<forall>h\<in>set (hospitals s). \<forall>h'\<in>set (hospitals s).
        \<not> coordinate_eq h h' \<longrightarrow> 3 \<le> distance_to h h')"

text \<open>
  A model used as an example: a 5 by 5 grid with hospitals at (0, 0) and (0, 3) and houses
  at (1, 1), (2, 2) and (4, 4). It is what initialization yields for the random numbers
  0, 0, 0, 3, 1, 1, 2, 2, 4, 4.
\<close>

definition example_model :: hospital_distribution where
  "example_model =
     \<lparr> rows = 5, cols = 5, num_hospitals = 2, num_houses = 3,
       grid = [[2, 0, 0, 2, 0], [0, 1, 0, 0, 0], [0, 0, 1, 0, 0], [0, 0, 0, 0, 0], [0, 0, 0, 0, 1]],
       hospitals = [\<lparr>coord_id = 0, coord_x = 0, coord_y = 0\<rparr>, \<lparr>coord_id = 1, coord_x = 0, coord_y = 3\<rparr>],
       houses = [\<lparr>coord_id = 2, coord_x = 1, coord_y = 1\<rparr>, \<lparr>coord_id = 3, coord_x = 2, coord_y = 2\<rparr>,
                 \<lparr>coord_id = 4, coord_x = 4, coord_y = 4\<rparr>],
       MIN_HOSPITAL_DISTANCE = 3, MAX_HOUSE_HOSPITAL_DISTANCE = 5, next_id = 5 \<rparr>"


text \<open>
  A call of \<^verbatim>\<open>optimize_distribution\<close> commits no relocation exactly when its first sweep
  ends with \<^verbatim>\<open>improved\<close> still false: \<^verbatim>\<open>improved\<close> is set where \<^verbatim>\<open>best_new_pos\<close> is set,
  every hospital with a \<^verbatim>\<open>best_new_pos\<close> is moved, and the loop ends after the first sweep
  that leaves \<^verbatim>\<open>improved\<close> false.
\<close>

definition no_relocation ::
  "(coordinate list \<Rightarrow> coordinate list) \<Rightarrow> hospital_distribution \<Rightarrow> bool" where
  "no_relocation ord s =
     (case sweep ord s (calculate_score s) of
        Inl e \<Rightarrow> False
      | Inr (s', best_score, improved) \<Rightarrow> \<not> improved)"

text \<open>
  A second example: a 2 by 2 grid with the hospital at (0, 0) and the house next to it at
  (0, 1), the result of initialization for the random numbers 0, 0, 0, 1.
\<close>

definition converged_model :: hospital_distribution where
  "converged_model =
     \<lparr> rows = 2, cols = 2, num_hospitals = 1, num_houses = 1,
       grid = [[2, 1], [0, 0]],
       hospitals = [\<lparr>coord_id = 0, coord_x = 0, coord_y = 0\<rparr>],
       houses = [\<lparr>coord_id = 1, coord_x = 0, coord_y = 1\<rparr>],
       MIN_HOSPITAL_DISTANCE = 3, MAX_HOUSE_HOSPITAL_DISTANCE = 5, next_id = 2 \<rparr>"

text \<open>
  The score in the words of the specification: the sum, over the houses, of the least
  Manhattan distance from the house to a hospital. (It is meant for a model with at least
  one hospital.)
\<close>

definition score_spec :: "hospital_distribution \<Rightarrow> int" where
  "score_spec s = (\<Sum>house\<leftarrow>houses s. Min (distance_to house ` set (hospitals s)))"

section \<open>Properties of the model\<close>

lemma bind_err_simps [simp]:
  "bind_err (Inl e) f = Inl e" "bind_err (Inr v) f = f v"
  by (simp_all add: bind_err_def)

lemma grid_get_cell:
  "grid_dims g r c \<Longrightarrow> 0 \<le> x \<Longrightarrow> x < r \<Longrightarrow> 0 \<le> y \<Longrightarrow> y < c \<Longrightarrow> grid_get g x y = Inr (cell g x y)"
  by (auto simp: grid_dims_def grid_get_def py_index_def cell_def list_all_length)

lemma grid_set_upd:
  "grid_dims g r c \<Longrightarrow> 0 \<le> x \<Longrightarrow> x < r \<Longrightarrow> 0 \<le> y \<Longrightarrow> y < c \<Longrightarrow> grid_set g x y v = Inr (upd g x y v)"
  by (auto simp: grid_dims_def grid_set_def py_index_def upd_def list_all_length)

lemma grid_dims_upd [simp]: "grid_dims (upd g x y v) r c = grid_dims g r c"
  by (cases "nat x < length g") (auto simp: grid_dims_def upd_def list_all_length nth_list_update)

lemma cell_upd:
  "grid_dims g r c \<Longrightarrow> 0 \<le> x \<Longrightarrow> x < r \<Longrightarrow> 0 \<le> y \<Longrightarrow> y < c \<Longrightarrow> 0 \<le> x' \<Longrightarrow> 0 \<le> y' \<Longrightarrow>
   cell (upd g x y v) x' y' = (if x' = x \<and> y' = y then v else cell g x' y')"
  by (auto simp: grid_dims_def cell_def upd_def list_all_length nth_list_update)

lemma upd_upd [simp]: "upd (upd g x y a) x y b = upd g x y b"
  by (cases "nat x < length g") (simp_all add: upd_def list_update_beyond)

lemma upd_same: "cell g x y = v \<Longrightarrow> upd g x y v = g"
  by (auto simp: upd_def cell_def)

lemma set_contains_iff: "set_contains cs c \<longleftrightarrow> coord_id c \<in> coord_id ` set cs"
  unfolding set_contains_def coordinate_eq_def list_ex_iff image_iff by metis

lemma set_remove_member: "c \<in> set cs \<Longrightarrow> set_remove c cs = Inr (others c cs)"
  by (auto simp: set_remove_def set_contains_iff others_def coordinate_eq_def)

lemma set_add_fresh: "coord_id c \<notin> coord_id ` set cs \<Longrightarrow> set_add c cs = cs @ [c]"
  by (simp add: set_add_def set_contains_iff)

lemma others_fresh: "coord_id c \<notin> coord_id ` set cs \<Longrightarrow> others c cs = cs"
  by (induction cs) (auto simp: others_def)

lemma others_append_self [simp]: "others c (cs @ [c]) = others c cs"
  by (simp add: others_def)

lemma others_idem [simp]: "others c (others c cs) = others c cs"
  by (simp add: others_def)

lemma set_others: "set (others c cs) = {d \<in> set cs. coord_id d \<noteq> coord_id c}"
  by (auto simp: others_def)

lemma id_notin_others [simp]: "coord_id c \<notin> coord_id ` set (others c cs)"
  by (auto simp: others_def)

lemma distinct_others: "distinct (map coord_id cs) \<Longrightarrow> distinct (map coord_id (others c cs))"
  by (simp add: others_def distinct_map_filter)

lemma mset_others_self:
  "distinct (map coord_id cs) \<Longrightarrow> c \<in> set cs \<Longrightarrow> mset (others c cs @ [c]) = mset cs"
proof (induction cs)
  case Nil
  then show ?case by simp
next
  case (Cons a cs)
  show ?case
  proof (cases "a = c")
    case True
    with Cons.prems have "coord_id c \<notin> coord_id ` set cs" by auto
    then have "others c cs = cs" by (rule others_fresh)
    with True show ?thesis by (simp add: others_def)
  next
    case False
    with Cons.prems have "c \<in> set cs" "coord_id a \<noteq> coord_id c" by auto
    with Cons show ?thesis by (simp add: others_def)
  qed
qed

lemma mset_others_cong: "mset cs = mset cs' \<Longrightarrow> mset (others c cs) = mset (others c cs')"
  by (simp add: others_def)

lemma all_far_iff: "all_far d pos hs \<longleftrightarrow> (\<forall>h\<in>set hs. \<not> distance_to pos h < d)"
  by (induction hs) auto

lemma min_distance_mset:
  assumes "mset hs = mset hs'"
  shows "min_distance house hs = min_distance house hs'"
proof -
  have "fold (\<lambda>hospital m. min m (enat (nat (distance_to house hospital)))) hs
      = fold (\<lambda>hospital m. min m (enat (nat (distance_to house hospital)))) hs'"
    by (rule fold_multiset_equiv [OF _ assms]) (simp add: fun_eq_iff min.assoc min.left_commute min.commute)
  then show ?thesis by (simp add: min_distance_def)
qed

lemma min_distance_snoc:
  "min_distance house (hs @ [c]) = min (min_distance house hs) (enat (nat (distance_to house c)))"
  by (simp add: min_distance_def)

lemma calculate_score_hospitals:
  "(\<And>house. house \<in> set (houses s) \<Longrightarrow> min_distance house (hospitals s) = min_distance house (hospitals s')) \<Longrightarrow>
   houses s' = houses s \<Longrightarrow> calculate_score s' = calculate_score s"
proof -
  assume a: "\<And>house. house \<in> set (houses s) \<Longrightarrow> min_distance house (hospitals s) = min_distance house (hospitals s')"
    and b: "houses s' = houses s"
  have "fold (\<lambda>house t. t + min_distance house (hospitals s')) (houses s) 0
      = fold (\<lambda>house t. t + min_distance house (hospitals s)) (houses s) 0"
    by (rule fold_cong) (simp_all add: a)
  then show ?thesis by (simp add: calculate_score_def b)
qed

lemma calculate_score_mset:
  "mset (hospitals s) = mset (hospitals s') \<Longrightarrow> houses s' = houses s \<Longrightarrow> calculate_score s' = calculate_score s"
  by (rule calculate_score_hospitals) (auto intro: min_distance_mset)

lemma calculate_score_pos:
  "coord_x c = coord_x c' \<Longrightarrow> coord_y c = coord_y c' \<Longrightarrow> hospitals s = hs @ [c] \<Longrightarrow> hospitals s' = hs @ [c'] \<Longrightarrow>
   houses s' = houses s \<Longrightarrow> calculate_score s' = calculate_score s"
  by (rule calculate_score_hospitals) (simp_all add: min_distance_snoc distance_to_def)

lemma try_candidate_outside:
  "\<not> in_grid s (coord_x h + fst d) (coord_y h + snd d) \<Longrightarrow> try_candidate h d (s, f) = Inr (s, f)"
  by (cases d; cases f) (auto simp: try_candidate_def in_grid_def Let_def)

lemma try_candidate_inside:
  assumes wf: "well_formed s" and h: "h \<in> set (hospitals s)"
    and inb: "in_grid s (coord_x h + fst d) (coord_y h + snd d)"
  shows "try_candidate h d (s, f) =
           Inr (s\<lparr>hospitals := others h (hospitals s) @ [h], next_id := Suc (next_id s)\<rparr>,
                found_after s h d f)"
proof -
  obtain dx dy where d: "d = (dx, dy)" by (cases d)
  obtain b p i where f: "f = (b, p, i)" by (cases f)
  define x y where "x = coord_x h + dx" and "y = coord_y h + dy"
  define np where "np = \<lparr>coord_id = next_id s, coord_x = x, coord_y = y\<rparr>"
  define rest where "rest = others h (hospitals s)"
  define g1 where "g1 = upd (grid s) (coord_x h) (coord_y h) 0"
  have npsel [simp]: "coord_x np = x" "coord_y np = y" "coord_id np = next_id s"
    by (simp_all add: np_def)
  have gd: "grid_dims (grid s) (rows s) (cols s)" using wf by (simp add: well_formed_def)
  have hin: "0 \<le> coord_x h" "coord_x h < rows s" "0 \<le> coord_y h" "coord_y h < cols s"
    and hcell: "cell (grid s) (coord_x h) (coord_y h) = 2"
    using wf h by (auto simp: well_formed_def in_grid_def)
  have xin: "0 \<le> x" "x < rows s" "0 \<le> y" "y < cols s"
    using inb by (auto simp: in_grid_def d x_def y_def)
  have min3: "MIN_HOSPITAL_DISTANCE s = 3" using wf by (simp add: well_formed_def)
  have fresh: "coord_id np \<notin> coord_id ` set rest"
    using wf by (auto simp: well_formed_def np_def rest_def set_others)
  have hfresh: "coord_id h \<notin> coord_id ` set rest"
    by (simp add: rest_def)
  have rm: "set_remove h (hospitals s) = Inr rest"
    using h by (simp add: set_remove_member rest_def)
  have gs1: "grid_set (grid s) (coord_x h) (coord_y h) 0 = Inr g1"
    using gd hin by (simp add: grid_set_upd g1_def)
  have gd1: "grid_dims g1 (rows s) (cols s)" using gd by (simp add: g1_def)
  have gg: "grid_get g1 x y = Inr (cell g1 x y)"
    using gd1 xin by (rule grid_get_cell)
  have far: "all_far 3 np rest = all_far 3 \<lparr>coord_id = 0, coord_x = x, coord_y = y\<rparr> rest"
    by (simp add: all_far_iff distance_to_def np_def)
  have gs2: "grid_set g1 x y 2 = Inr (upd g1 x y 2)"
    using gd1 xin by (rule grid_set_upd)
  have gs3: "grid_set (upd g1 x y 2) x y 0 = Inr (upd g1 x y 0)"
    using gd1 xin by (simp add: grid_set_upd)
  have back0: "cell g1 x y = 0 \<Longrightarrow> upd g1 x y 0 = g1" by (rule upd_same)
  have gs5: "grid_set g1 (coord_x h) (coord_y h) 2 = Inr (grid s)"
    using gd1 hin hcell by (simp add: grid_set_upd g1_def upd_same)
  have add_np: "set_add np rest = rest @ [np]" using fresh by (rule set_add_fresh)
  have rm_np: "set_remove np (rest @ [np]) = Inr rest"
    using fresh by (simp add: set_remove_member others_fresh)
  have add_h: "set_add h rest = rest @ [h]" using hfresh by (rule set_add_fresh)
  have score: "calculate_score (s\<lparr>next_id := Suc (next_id s), hospitals := rest @ [np], grid := upd g1 x y 2\<rparr>)
             = calculate_score (s\<lparr>hospitals := rest @ [\<lparr>coord_id = 0, coord_x = x, coord_y = y\<rparr>]\<rparr>)"
    by (rule calculate_score_pos [where hs = rest]) (simp_all add: np_def)
  show ?thesis
  proof (cases "cell g1 x y = 0 \<and> all_far 3 np rest")
    case True
    then have cs: "candidate_score s h d = Some (calculate_score (s\<lparr>hospitals := rest @ [\<lparr>coord_id = 0, coord_x = x, coord_y = y\<rparr>]\<rparr>))"
      using inb far by (simp add: candidate_score_def d x_def y_def rest_def g1_def min3 Let_def)
    from True show ?thesis
      using xin
      by (simp add: try_candidate_def d f Coordinate_def x_def [symmetric] y_def [symmetric]
          np_def [symmetric] rm gs1 is_valid_hospital_position_def gg min3 gs2 add_np rm_np gs3 back0 gs5 add_h
          score found_after_def cs [unfolded d] Let_def rest_def [symmetric])
  next
    case False
    then have cs: "candidate_score s h d = None"
      using inb far by (auto simp add: candidate_score_def d x_def y_def rest_def g1_def min3 Let_def)
    from False show ?thesis
      using xin
      by (auto simp add: try_candidate_def d f Coordinate_def x_def [symmetric] y_def [symmetric]
          np_def [symmetric] rm gs1 is_valid_hospital_position_def gg min3 gs5 add_h
          found_after_def cs [unfolded d] Let_def rest_def [symmetric])
  qed
qed

lemma same_model_refl [simp]: "same_model s s"
  by (simp add: same_model_def)

lemma same_model_fields:
  assumes "same_model s s'"
  shows "rows s' = rows s" "cols s' = cols s" "num_hospitals s' = num_hospitals s"
    "num_houses s' = num_houses s" "grid s' = grid s" "houses s' = houses s"
    "MIN_HOSPITAL_DISTANCE s' = MIN_HOSPITAL_DISTANCE s"
    "MAX_HOUSE_HOSPITAL_DISTANCE s' = MAX_HOUSE_HOSPITAL_DISTANCE s"
    "mset (hospitals s') = mset (hospitals s)" "next_id s \<le> next_id s'"
    "set (hospitals s') = set (hospitals s)" "length (hospitals s') = length (hospitals s)"
proof -
  from assms have e: "s' = s\<lparr>hospitals := hospitals s', next_id := next_id s'\<rparr>"
    and m: "mset (hospitals s') = mset (hospitals s)" and n: "next_id s \<le> next_id s'"
    by (simp_all add: same_model_def)
  show "rows s' = rows s" by (subst e) simp
  show "cols s' = cols s" by (subst e) simp
  show "num_hospitals s' = num_hospitals s" by (subst e) simp
  show "num_houses s' = num_houses s" by (subst e) simp
  show "grid s' = grid s" by (subst e) simp
  show "houses s' = houses s" by (subst e) simp
  show "MIN_HOSPITAL_DISTANCE s' = MIN_HOSPITAL_DISTANCE s" by (subst e) simp
  show "MAX_HOUSE_HOSPITAL_DISTANCE s' = MAX_HOUSE_HOSPITAL_DISTANCE s" by (subst e) simp
  show "mset (hospitals s') = mset (hospitals s)" by (rule m)
  show "next_id s \<le> next_id s'" by (rule n)
  show "set (hospitals s') = set (hospitals s)" using m by (rule mset_eq_setD)
  show "length (hospitals s') = length (hospitals s)" using m by (rule mset_eq_length)
qed

lemma same_model_trans: "same_model s s' \<Longrightarrow> same_model s' s'' \<Longrightarrow> same_model s s''"
  unfolding same_model_def
  by (metis (no_types, lifting) hospital_distribution.surjective hospital_distribution.update_convs(6,10)
      le_trans)

lemma same_model_intro:
  "mset hs = mset (hospitals s) \<Longrightarrow> next_id s \<le> n \<Longrightarrow> same_model s (s\<lparr>hospitals := hs, next_id := n\<rparr>)"
  by (simp add: same_model_def)

lemma same_model_well_formed:
  assumes sm: "same_model s s'" and wf: "well_formed s"
  shows "well_formed s'"
proof -
  note f = same_model_fields [OF sm]
  have "mset (map coord_id (hospitals s')) = mset (map coord_id (hospitals s))"
    using f(9) by simp
  then have d: "distinct (map coord_id (hospitals s')) = distinct (map coord_id (hospitals s))"
    by (rule mset_eq_imp_distinct_iff)
  show ?thesis
    using wf f(10) unfolding well_formed_def in_grid_def f(1-8) f(11) d
    by fastforce
qed

lemma same_model_score: "same_model s s' \<Longrightarrow> calculate_score s' = calculate_score s"
  by (rule calculate_score_mset) (simp_all add: same_model_fields)

lemma same_model_candidate_score:
  assumes sm: "same_model s s'"
  shows "candidate_score s' h d = candidate_score s h d"
proof -
  note f = same_model_fields [OF sm]
  have m: "mset (others h (hospitals s')) = mset (others h (hospitals s))"
    using f(9) by (rule mset_others_cong)
  then have st: "set (others h (hospitals s')) = set (others h (hospitals s))"
    by (rule mset_eq_setD)
  have "calculate_score (s'\<lparr>hospitals := others h (hospitals s') @ [c]\<rparr>)
      = calculate_score (s\<lparr>hospitals := others h (hospitals s) @ [c]\<rparr>)" for c
    by (rule calculate_score_mset) (simp_all add: m f)
  then show ?thesis
    by (simp add: candidate_score_def Let_def in_grid_def f(1-8) all_far_iff st)
qed

lemma candidate_score_outside:
  "\<not> in_grid s (coord_x h + fst d) (coord_y h + snd d) \<Longrightarrow> candidate_score s h d = None"
  by (simp add: candidate_score_def Let_def)

lemma try_candidate_step:
  assumes wf: "well_formed s" and h: "h \<in> set (hospitals s)"
  shows "\<exists>s1. try_candidate h d (s, f) = Inr (s1, found_after s h d f) \<and> same_model s s1 \<and>
           (in_grid s (coord_x h + fst d) (coord_y h + snd d) \<longrightarrow> next_id s < next_id s1)"
proof (cases "in_grid s (coord_x h + fst d) (coord_y h + snd d)")
  case True
  have "mset (others h (hospitals s) @ [h]) = mset (hospitals s)"
    using wf h by (intro mset_others_self) (simp_all add: well_formed_def)
  then have "same_model s (s\<lparr>hospitals := others h (hospitals s) @ [h], next_id := Suc (next_id s)\<rparr>)"
    by (intro same_model_intro) simp_all
  with try_candidate_inside [OF wf h True] show ?thesis by auto
next
  case False
  then show ?thesis
    by (simp add: try_candidate_outside found_after_def candidate_score_outside)
qed

lemma search_neighbourhood:
  assumes "well_formed s" and "h \<in> set (hospitals s)"
  shows "\<exists>s' f'. for_each (try_candidate h) ds (s, f) = Inr (s', f') \<and> same_model s s' \<and>
           (if \<exists>d\<in>set ds. improving s h (fst f) d then improved_by s s' h ds (fst f) f' else f' = f)"
  using assms
proof (induction ds arbitrary: s f)
  case Nil
  then show ?case by simp
next
  case (Cons d ds)
  obtain s1 where s1: "try_candidate h d (s, f) = Inr (s1, found_after s h d f)"
    and sm1: "same_model s s1"
    and n1: "in_grid s (coord_x h + fst d) (coord_y h + snd d) \<longrightarrow> next_id s < next_id s1"
    using try_candidate_step [OF Cons.prems] by blast
  define f1 where "f1 = found_after s h d f"
  have wf1: "well_formed s1" using sm1 Cons.prems(1) by (rule same_model_well_formed)
  have h1: "h \<in> set (hospitals s1)" using Cons.prems(2) by (simp add: same_model_fields [OF sm1])
  obtain s' f' where run: "for_each (try_candidate h) ds (s1, f1) = Inr (s', f')"
    and sm': "same_model s1 s'"
    and res: "if \<exists>d\<in>set ds. improving s1 h (fst f1) d then improved_by s1 s' h ds (fst f1) f' else f' = f1"
    using Cons.IH [OF wf1 h1] by blast
  have cs: "candidate_score s1 h e = candidate_score s h e" for e
    using sm1 by (rule same_model_candidate_score)
  have imp1: "improving s1 h b e = improving s h b e" for b e
    by (simp add: improving_def cs)
  have n01: "next_id s \<le> next_id s1" using sm1 by (simp add: same_model_fields)
  have n1': "next_id s1 \<le> next_id s'" using sm' by (simp add: same_model_fields)
  have sm: "same_model s s'" using sm1 sm' by (rule same_model_trans)
  have eq: "for_each (try_candidate h) (d # ds) (s, f) = Inr (s', f')"
    by (simp add: s1 run [unfolded f1_def])
  have weaken: "improved_by s s' h (d # ds) (fst f) f'"
    if "improved_by s1 s' h ds (fst f1) f'" "fst f1 \<le> fst f"
    using that n01 unfolding improved_by_def cs by fastforce
  show ?case
  proof (cases "improving s h (fst f) d")
    case True
    then obtain v where v: "candidate_score s h d = Some v" "v < fst f"
      by (auto simp: improving_def split: option.splits)
    then have f1: "f1 = (v, Some \<lparr>coord_id = next_id s, coord_x = coord_x h + fst d, coord_y = coord_y h + snd d\<rparr>, True)"
      by (simp add: f1_def found_after_def)
    have inb: "in_grid s (coord_x h + fst d) (coord_y h + snd d)"
      using v(1) candidate_score_outside by fastforce
    have "improved_by s s' h (d # ds) (fst f) f'"
    proof (cases "\<exists>d\<in>set ds. improving s1 h (fst f1) d")
      case True
      with res have "improved_by s1 s' h ds (fst f1) f'" by simp
      then show ?thesis using v(2) by (intro weaken) (simp_all add: f1)
    next
      case False
      with res have "f' = f1" by simp
      then show ?thesis
        using v n1 n1' inb by (auto simp: improved_by_def f1)
    qed
    with True eq sm show ?thesis by auto
  next
    case False
    then have f1: "f1 = f"
      by (auto simp: f1_def found_after_def improving_def split: option.splits)
    show ?thesis
    proof (cases "\<exists>d\<in>set ds. improving s h (fst f) d")
      case True
      with res have "improved_by s1 s' h ds (fst f1) f'" by (simp add: f1 imp1)
      then have "improved_by s s' h (d # ds) (fst f) f'" by (rule weaken) (simp add: f1)
      with True eq sm show ?thesis by auto
    next
      case F2: False
      with res have "f' = f" by (simp add: f1 imp1)
      with False F2 eq sm show ?thesis by auto
    qed
  qed
qed

lemma frame_refl [simp]: "frame s s"
  by (simp add: frame_def)

lemma frame_trans: "frame s s' \<Longrightarrow> frame s' s'' \<Longrightarrow> frame s s''"
  by (simp add: frame_def)

lemma same_model_frame: "same_model s s' \<Longrightarrow> frame s s'"
  by (simp add: frame_def same_model_fields)

lemma distance_to_commute: "distance_to a b = distance_to b a"
  by (simp add: distance_to_def abs_minus_commute)

lemma score_moved:
  assumes "mset rest' = mset rest" "coord_x c = coord_x c'" "coord_y c = coord_y c'"
    "houses s' = houses s" "hospitals s = rest @ [c]" "hospitals s' = rest' @ [c']"
  shows "calculate_score s' = calculate_score s"
proof (rule calculate_score_hospitals)
  fix house
  have "min_distance house rest' = min_distance house rest"
    using assms(1) by (rule min_distance_mset)
  then show "min_distance house (hospitals s) = min_distance house (hospitals s')"
    using assms(2,3,5,6) by (simp add: min_distance_snoc distance_to_def)
qed (rule assms(4))

lemma set_others_distinct:
  "distinct (map coord_id cs) \<Longrightarrow> h \<in> set cs \<Longrightarrow> set (others h cs) = set cs - {h}"
  by (auto simp: set_others distinct_map inj_on_def)

lemma commit_well_formed:
  assumes wf: "well_formed s" and h: "h \<in> set (hospitals s)"
    and cs: "candidate_score s h d = Some v"
    and np: "coord_x np = coord_x h + fst d" "coord_y np = coord_y h + snd d"
      "next_id s \<le> coord_id np" "coord_id np < next_id s1"
    and sm: "same_model s s1"
  defines "s2 \<equiv> s1\<lparr>hospitals := others h (hospitals s1) @ [np],
                    grid := upd (upd (grid s) (coord_x h) (coord_y h) 0) (coord_x np) (coord_y np) 2\<rparr>"
  shows "well_formed s2" and "calculate_score s2 = v"
    and "set (hospitals s2) = insert np (set (hospitals s) - {h})"
    and "frame s s2"
proof -
  note f = same_model_fields [OF sm]
  have wf1: "well_formed s1" using sm wf by (rule same_model_well_formed)
  have h1: "h \<in> set (hospitals s1)" using h by (simp add: f)
  have d1: "distinct (map coord_id (hospitals s1))" using wf1 by (simp add: well_formed_def)
  have so: "set (others h (hospitals s1)) = set (hospitals s) - {h}"
    using set_others_distinct [OF d1 h1] by (simp add: f)
  have mo: "mset (others h (hospitals s1)) = mset (others h (hospitals s))"
    using f(9) by (rule mset_others_cong)
  have gd: "grid_dims (grid s) (rows s) (cols s)" and min3: "MIN_HOSPITAL_DISTANCE s = 3"
    using wf by (simp_all add: well_formed_def)
  have hin: "0 \<le> coord_x h" "coord_x h < rows s" "0 \<le> coord_y h" "coord_y h < cols s"
    and hcell: "cell (grid s) (coord_x h) (coord_y h) = 2"
    using wf h by (auto simp: well_formed_def in_grid_def)
  have dh: "distinct (map coord_id (hospitals s))" using wf by (simp add: well_formed_def)
  from cs have inb: "in_grid s (coord_x np) (coord_y np)"
    and free: "cell (upd (grid s) (coord_x h) (coord_y h) 0) (coord_x np) (coord_y np) = 0"
    and far0: "all_far 3 \<lparr>coord_id = 0, coord_x = coord_x np, coord_y = coord_y np\<rparr> (others h (hospitals s))"
    and v: "v = calculate_score (s\<lparr>hospitals := others h (hospitals s) @
               [\<lparr>coord_id = 0, coord_x = coord_x np, coord_y = coord_y np\<rparr>]\<rparr>)"
    by (simp_all add: candidate_score_def Let_def np min3 split: if_splits)
  have far: "\<forall>h'\<in>set (hospitals s) - {h}. 3 \<le> distance_to np h'"
    using far0 by (simp add: all_far_iff set_others_distinct [OF dh h] distance_to_def not_less)
  have nin: "0 \<le> coord_x np" "coord_x np < rows s" "0 \<le> coord_y np" "coord_y np < cols s"
    using inb by (auto simp: in_grid_def)
  have gd1: "grid_dims (upd (grid s) (coord_x h) (coord_y h) 0) (rows s) (cols s)"
    using gd by simp
  have cell2: "cell (grid s2) x y =
      (if x = coord_x np \<and> y = coord_y np then 2
       else if x = coord_x h \<and> y = coord_y h then 0 else cell (grid s) x y)"
    if "0 \<le> x" "0 \<le> y" for x y
    using that by (simp add: s2_def cell_upd [OF gd1 nin] cell_upd [OF gd hin])
  have free': "cell (grid s) (coord_x np) (coord_y np) = 0 \<or>
      (coord_x np = coord_x h \<and> coord_y np = coord_y h)"
    using free nin by (simp add: cell_upd [OF gd hin] split: if_splits)
  have other_pos: "\<not> (coord_x h' = coord_x h \<and> coord_y h' = coord_y h)"
    if "h' \<in> set (hospitals s) - {h}" for h'
  proof -
    from that wf h have "coord_id h' \<noteq> coord_id h"
      by (auto simp: well_formed_def distinct_map inj_on_def)
    with that wf h have "3 \<le> distance_to h' h" by (auto simp: well_formed_def)
    then show ?thesis by (auto simp: distance_to_def)
  qed
  have other_np: "\<not> (coord_x h' = coord_x np \<and> coord_y h' = coord_y np)"
    if "h' \<in> set (hospitals s) - {h}" for h'
  proof -
    from far that have "3 \<le> distance_to np h'" by blast
    then show ?thesis by (auto simp: distance_to_def)
  qed
  show "set (hospitals s2) = insert np (set (hospitals s) - {h})"
    by (auto simp: s2_def so)
  have "mset (others h (hospitals s1) @ [h]) = mset (hospitals s1)"
    using d1 h1 by (rule mset_others_self)
  then have "length (others h (hospitals s1) @ [h]) = length (hospitals s1)"
    by (rule mset_eq_length)
  then have len: "length (others h (hospitals s1) @ [np]) = length (hospitals s)"
    by (simp add: f)
  show "frame s s2"
    using len by (simp add: frame_def s2_def f)
  show "calculate_score s2 = v"
    unfolding v
    by (rule score_moved [OF mo]) (simp_all add: s2_def f)
  show "well_formed s2"
    unfolding well_formed_def
  proof (intro conjI ballI impI)
    show "grid_dims (grid s2) (rows s2) (cols s2)"
      using gd by (simp add: s2_def f)
    show "MIN_HOSPITAL_DISTANCE s2 = 3" by (simp add: s2_def f min3)
    show "distinct (map coord_id (hospitals s2))"
      using distinct_others [OF d1, of h] np(3) wf
      by (auto simp: s2_def so well_formed_def)
    show "distinct (map coord_id (houses s2))"
      using wf by (simp add: s2_def f well_formed_def)
    show "distinct (map (\<lambda>c. (coord_x c, coord_y c)) (houses s2))"
      using wf by (simp add: s2_def f well_formed_def)
  next
    fix c assume "c \<in> set (hospitals s2)"
    then have c: "c = np \<or> c \<in> set (hospitals s) - {h}" by (auto simp: s2_def so)
    then have cin: "in_grid s (coord_x c) (coord_y c)"
      using inb wf by (auto simp: well_formed_def)
    from c show "coord_id c < next_id s2"
      using np(4) wf f(10) by (auto simp: s2_def well_formed_def)
    from cin show "in_grid s2 (coord_x c) (coord_y c)"
      by (simp add: in_grid_def s2_def f)
    from c cin show "cell (grid s2) (coord_x c) (coord_y c) = 2"
      using other_pos [of c] other_np [of c] wf
      by (auto simp: cell2 in_grid_def well_formed_def)
  next
    fix a b assume "a \<in> set (hospitals s2)" "b \<in> set (hospitals s2)" "coord_id a \<noteq> coord_id b"
    then have "(a = np \<and> b \<in> set (hospitals s) - {h}) \<or> (b = np \<and> a \<in> set (hospitals s) - {h})
       \<or> (a \<in> set (hospitals s) \<and> b \<in> set (hospitals s))"
      by (auto simp: s2_def so)
    then consider (1) "a = np" "b \<in> set (hospitals s) - {h}"
      | (2) "b = np" "a \<in> set (hospitals s) - {h}"
      | (3) "a \<in> set (hospitals s)" "b \<in> set (hospitals s)"
      by blast
    then show "3 \<le> distance_to a b"
    proof cases
      case 1
      with far show ?thesis by blast
    next
      case 2
      with far have "3 \<le> distance_to np a" by blast
      with 2 show ?thesis by (simp add: distance_to_commute)
    next
      case 3
      with wf \<open>coord_id a \<noteq> coord_id b\<close> show ?thesis by (simp add: well_formed_def)
    qed
  next
    fix c assume c: "c \<in> set (houses s2)"
    then have c': "c \<in> set (houses s)" by (simp add: s2_def f)
    with wf have cw: "coord_id c < next_id s" "in_grid s (coord_x c) (coord_y c)"
      "cell (grid s) (coord_x c) (coord_y c) = 1"
      by (auto simp: well_formed_def)
    show "coord_id c < next_id s2" using cw(1) f(10) by (simp add: s2_def)
    show "in_grid s2 (coord_x c) (coord_y c)" using cw(2) by (simp add: in_grid_def s2_def f)
    have nn: "0 \<le> coord_x c" "0 \<le> coord_y c" using cw(2) by (simp_all add: in_grid_def)
    have n1: "\<not> (coord_x c = coord_x h \<and> coord_y c = coord_y h)"
      using cw(3) hcell by auto
    have n2: "\<not> (coord_x c = coord_x np \<and> coord_y c = coord_y np)"
    proof
      assume e: "coord_x c = coord_x np \<and> coord_y c = coord_y np"
      with cw(3) have "cell (grid s) (coord_x np) (coord_y np) = 1" by simp
      with free' have "coord_x np = coord_x h \<and> coord_y np = coord_y h" by simp
      with e n1 show False by simp
    qed
    show "cell (grid s2) (coord_x c) (coord_y c) = 1"
      using n1 n2 cw(3) by (simp add: cell2 [OF nn])
  qed
qed

lemma relocate_step:
  assumes wf: "well_formed s" and h: "h \<in> set (hospitals s)"
  shows "\<exists>s' b'. relocate h (s, b, i) = Inr (s', b', (i \<or> b' < b)) \<and> frame s s' \<and> well_formed s' \<and>
           (if \<exists>d\<in>set offsets. improving s h b d
            then b' < b \<and> calculate_score s' = b' \<and> moved s h s' b'
            else same_model s s' \<and> b' = b)"
proof -
  obtain s1 f' where run: "for_each (try_candidate h) offsets (s, b, None, i) = Inr (s1, f')"
    and sm: "same_model s s1"
    and res: "if \<exists>d\<in>set offsets. improving s h b d then improved_by s s1 h offsets b f'
              else f' = (b, None, i)"
    using search_neighbourhood [OF wf h, of offsets "(b, None, i)"] unfolding fst_conv by blast
  note f = same_model_fields [OF sm]
  have wf1: "well_formed s1" using sm wf by (rule same_model_well_formed)
  show ?thesis
  proof (cases "\<exists>d\<in>set offsets. improving s h b d")
    case False
    with res have "f' = (b, None, i)" by simp
    then have "relocate h (s, b, i) = Inr (s1, b, i)"
      by (simp add: relocate_def run)
    with False sm wf1 show ?thesis
      by (auto simp: same_model_frame)
  next
    case True
    with res have "improved_by s s1 h offsets b f'" by simp
    then obtain b1 d n where f': "f' = (b1, Some \<lparr>coord_id = n, coord_x = coord_x h + fst d, coord_y = coord_y h + snd d\<rparr>, True)"
      and b1: "b1 < b" and d: "d \<in> set offsets" and n: "next_id s \<le> n" "n < next_id s1"
      and cs: "candidate_score s h d = Some b1"
      by (cases f') (auto simp: improved_by_def)
    define np where "np = \<lparr>coord_id = n, coord_x = coord_x h + fst d, coord_y = coord_y h + snd d\<rparr>"
    have nps: "coord_x np = coord_x h + fst d" "coord_y np = coord_y h + snd d" "coord_id np = n"
      by (simp_all add: np_def)
    define s2 where "s2 = s1\<lparr>hospitals := others h (hospitals s1) @ [np],
                    grid := upd (upd (grid s) (coord_x h) (coord_y h) 0) (coord_x np) (coord_y np) 2\<rparr>"
    have c: "well_formed s2" "calculate_score s2 = b1"
      "set (hospitals s2) = insert np (set (hospitals s) - {h})" "frame s s2"
      unfolding s2_def
      using commit_well_formed [OF wf h cs nps(1,2) _ _ sm] n by (simp_all add: nps)
    have gd: "grid_dims (grid s) (rows s) (cols s)" using wf by (simp add: well_formed_def)
    have hin: "0 \<le> coord_x h" "coord_x h < rows s" "0 \<le> coord_y h" "coord_y h < cols s"
      using wf h by (auto simp: well_formed_def in_grid_def)
    have inb: "in_grid s (coord_x np) (coord_y np)"
      using cs candidate_score_outside [of s h d] by (auto simp: nps)
    then have nin: "0 \<le> coord_x np" "coord_x np < rows s" "0 \<le> coord_y np" "coord_y np < cols s"
      by (auto simp: in_grid_def)
    have h1: "h \<in> set (hospitals s1)" using h by (simp add: f)
    have rm: "set_remove h (hospitals s1) = Inr (others h (hospitals s1))"
      using h1 by (rule set_remove_member)
    have gs1: "grid_set (grid s1) (coord_x h) (coord_y h) 0 = Inr (upd (grid s) (coord_x h) (coord_y h) 0)"
      using gd hin by (simp add: f grid_set_upd)
    have "\<forall>c\<in>set (hospitals s1). coord_id c < next_id s"
      using wf by (simp add: f well_formed_def)
    then have "coord_id np \<notin> coord_id ` set (others h (hospitals s1))"
      using n(1) by (auto simp: set_others nps)
    then have add: "set_add np (others h (hospitals s1)) = others h (hospitals s1) @ [np]"
      by (rule set_add_fresh)
    have gd1: "grid_dims (upd (grid s) (coord_x h) (coord_y h) 0) (rows s) (cols s)"
      using gd by simp
    have gs2: "grid_set (upd (grid s) (coord_x h) (coord_y h) 0) (coord_x np) (coord_y np) 2
        = Inr (upd (upd (grid s) (coord_x h) (coord_y h) 0) (coord_x np) (coord_y np) 2)"
      using gd1 nin by (rule grid_set_upd)
    have "relocate h (s, b, i) = Inr (s2, b1, True)"
      by (simp add: relocate_def run f' np_def [symmetric] rm gs1 add gs2 s2_def Let_def)
    moreover have "moved s h s2 b1"
      unfolding moved_def using d cs nps n(1) c(3) by blast
    ultimately show ?thesis
      using True b1 c by auto
  qed
qed

lemma same_model_improving: "same_model s s' \<Longrightarrow> improving s' h b d = improving s h b d"
  by (simp add: improving_def same_model_candidate_score)

lemma sweep_hospitals:
  assumes "well_formed s" and "set hs \<subseteq> set (hospitals s)" and "distinct hs"
    and "b = calculate_score s"
  shows "\<exists>s' b'. for_each relocate hs (s, b, i) = Inr (s', b', (i \<or> b' < b)) \<and> frame s s' \<and>
           well_formed s' \<and> b' = calculate_score s' \<and> b' \<le> b \<and>
           (if \<exists>h\<in>set hs. \<exists>d\<in>set offsets. improving s h b d then b' < b else same_model s s')"
  using assms
proof (induction hs arbitrary: s b i)
  case Nil
  then show ?case by simp
next
  case (Cons h hs)
  have h: "h \<in> set (hospitals s)" using Cons.prems(2) by simp
  obtain s1 b1 where r: "relocate h (s, b, i) = Inr (s1, b1, (i \<or> b1 < b))"
    and fr1: "frame s s1" and wf1: "well_formed s1"
    and c1: "if \<exists>d\<in>set offsets. improving s h b d
             then b1 < b \<and> calculate_score s1 = b1 \<and> moved s h s1 b1
             else same_model s s1 \<and> b1 = b"
    using relocate_step [OF Cons.prems(1) h, of b i] by blast
  have sc1: "b1 = calculate_score s1"
    using c1 Cons.prems(4) by (auto simp: same_model_score split: if_splits)
  have le1: "b1 \<le> b" using c1 by (auto split: if_splits)
  have sub1: "set hs \<subseteq> set (hospitals s1)"
  proof (cases "\<exists>d\<in>set offsets. improving s h b d")
    case True
    with c1 have "moved s h s1 b1" by simp
    then obtain np where "set (hospitals s1) = insert np (set (hospitals s) - {h})"
      by (auto simp: moved_def)
    with Cons.prems(2,3) show ?thesis by auto
  next
    case False
    with c1 have "same_model s s1" by simp
    with Cons.prems(2) show ?thesis by (simp add: same_model_fields)
  qed
  have dist1: "distinct hs" using Cons.prems(3) by simp
  obtain s' b' where r': "for_each relocate hs (s1, b1, (i \<or> b1 < b)) = Inr (s', b', ((i \<or> b1 < b) \<or> b' < b1))"
    and fr': "frame s1 s'" and wf': "well_formed s'" and sc': "b' = calculate_score s'"
    and le': "b' \<le> b1"
    and c': "if \<exists>h\<in>set hs. \<exists>d\<in>set offsets. improving s1 h b1 d then b' < b1 else same_model s1 s'"
    using Cons.IH [OF wf1 sub1 dist1 sc1, of "i \<or> b1 < b"] by blast
  have flag: "(i \<or> b1 < b \<or> b' < b1) = (i \<or> b' < b)"
    using le1 le' by (meson leD leI le_less_trans less_le_trans)
  have run: "for_each relocate (h # hs) (s, b, i) = Inr (s', b', (i \<or> b' < b))"
    by (simp add: r r' flag)
  have fr: "frame s s'" using fr1 fr' by (rule frame_trans)
  have le: "b' \<le> b" using le1 le' by simp
  have cond: "if \<exists>h\<in>set (h # hs). \<exists>d\<in>set offsets. improving s h b d then b' < b else same_model s s'"
  proof (cases "\<exists>d\<in>set offsets. improving s h b d")
    case True
    with c1 have "b1 < b" by simp
    with le' have "b' < b" by simp
    with True show ?thesis by auto
  next
    case False
    with c1 have sm1: "same_model s s1" and e: "b1 = b" by simp_all
    have imp: "improving s1 k b d = improving s k b d" for k d
      using sm1 by (rule same_model_improving)
    show ?thesis
    proof (cases "\<exists>h\<in>set hs. \<exists>d\<in>set offsets. improving s h b d")
      case True
      with c' have "b' < b" by (simp add: e imp)
      with True show ?thesis by auto
    next
      case F2: False
      with c' have "same_model s1 s'" by (simp add: e imp)
      with sm1 have "same_model s s'" by (rule same_model_trans)
      with False F2 show ?thesis by auto
    qed
  qed
  from run fr wf' sc' le cond show ?case by blast
qed

lemma same_model_locally_optimal: "same_model s s' \<Longrightarrow> locally_optimal s' = locally_optimal s"
  by (simp add: locally_optimal_def same_model_improving same_model_score same_model_fields)

lemma iteration_order_set: "iteration_order ord \<Longrightarrow> set (ord cs) = set cs"
  by (metis iteration_order_def mset_eq_setD)

lemma iteration_order_distinct: "iteration_order ord \<Longrightarrow> distinct (ord cs) = distinct cs"
  by (metis iteration_order_def mset_eq_imp_distinct_iff)

lemma sweep_step:
  assumes wf: "well_formed s" and ord: "iteration_order ord"
  shows "\<exists>s' b'. sweep ord s (calculate_score s) = Inr (s', b', \<not> locally_optimal s) \<and> frame s s' \<and>
           well_formed s' \<and> b' = calculate_score s' \<and>
           (if locally_optimal s then same_model s s' else calculate_score s' < calculate_score s)"
proof -
  have "distinct (map coord_id (hospitals s))" using wf by (simp add: well_formed_def)
  then have "distinct (hospitals s)" by (simp add: distinct_map)
  then have d: "distinct (ord (hospitals s))" using ord by (simp add: iteration_order_distinct)
  have sub: "set (ord (hospitals s)) \<subseteq> set (hospitals s)" using ord by (simp add: iteration_order_set)
  obtain s' b' where run: "for_each relocate (ord (hospitals s)) (s, calculate_score s, False)
        = Inr (s', b', (False \<or> b' < calculate_score s))"
    and rest: "frame s s'" "well_formed s'" "b' = calculate_score s'" "b' \<le> calculate_score s"
    and c: "if \<exists>h\<in>set (ord (hospitals s)). \<exists>d\<in>set offsets. improving s h (calculate_score s) d
            then b' < calculate_score s else same_model s s'"
    using sweep_hospitals [OF wf sub d refl, of False] by blast
  have lo: "(\<exists>h\<in>set (ord (hospitals s)). \<exists>d\<in>set offsets. improving s h (calculate_score s) d)
      = (\<not> locally_optimal s)"
    using ord by (simp add: locally_optimal_def iteration_order_set)
  have flag: "(b' < calculate_score s) = (\<not> locally_optimal s)"
  proof (cases "locally_optimal s")
    case True
    with c lo have "same_model s s'" by simp
    then have "calculate_score s' = calculate_score s" by (rule same_model_score)
    with True rest(3) show ?thesis by simp
  next
    case False
    with c lo show ?thesis by simp
  qed
  have "sweep ord s (calculate_score s) = Inr (s', b', \<not> locally_optimal s)"
    using run by (simp add: sweep_def flag)
  moreover have "if locally_optimal s then same_model s s' else calculate_score s' < calculate_score s"
    using c lo rest(3) by (auto split: if_splits)
  ultimately show ?thesis using rest by blast
qed

lemma while_improved_total:
  assumes "well_formed s" and "iteration_order ord"
  shows "\<exists>s'. while_improved ord s (calculate_score s) = Some (Inr s') \<and> frame s s' \<and>
           well_formed s' \<and> calculate_score s' \<le> calculate_score s \<and> locally_optimal s' \<and>
           (locally_optimal s \<longrightarrow> same_model s s')"
  using assms
proof (induction "calculate_score s" arbitrary: s rule: less_induct)
  case less
  obtain s1 b1 where sw: "sweep ord s (calculate_score s) = Inr (s1, b1, \<not> locally_optimal s)"
    and fr1: "frame s s1" and wf1: "well_formed s1" and sc1: "b1 = calculate_score s1"
    and c1: "if locally_optimal s then same_model s s1 else calculate_score s1 < calculate_score s"
    using sweep_step [OF less.prems] by blast
  show ?case
  proof (cases "locally_optimal s")
    case True
    with c1 have sm: "same_model s s1" by simp
    have "while_improved ord s (calculate_score s) = Some (Inr s1)"
      by (subst while_improved.simps) (simp add: sw True)
    moreover have "locally_optimal s1" using sm True by (simp add: same_model_locally_optimal)
    moreover have "calculate_score s1 \<le> calculate_score s" using sm by (simp add: same_model_score)
    ultimately show ?thesis using fr1 wf1 sm by blast
  next
    case False
    with c1 have lt: "calculate_score s1 < calculate_score s" by simp
    obtain s' where w: "while_improved ord s1 (calculate_score s1) = Some (Inr s')"
      and r: "frame s1 s'" "well_formed s'" "calculate_score s' \<le> calculate_score s1" "locally_optimal s'"
      using less.hyps [OF lt wf1 less.prems(2)] by blast
    have "while_improved ord s (calculate_score s) = Some (Inr s')"
      by (subst while_improved.simps) (simp add: sw False w [unfolded sc1 [symmetric]])
    moreover have "frame s s'" using fr1 r(1) by (rule frame_trans)
    moreover have "calculate_score s' \<le> calculate_score s" using r(3) lt by simp
    ultimately show ?thesis using r(2,4) False by blast
  qed
qed

lemma randint_range:
  "randint 0 (n - 1) ds = Some (Inr (v, ds')) \<Longrightarrow> 0 \<le> v \<and> v < n"
  by (auto simp: randint_def split: if_splits list.splits)

lemma randint_no_error: "1 \<le> n \<Longrightarrow> randint 0 (n - 1) ds \<noteq> Some (Inl e)"
  by (auto simp: randint_def split: list.splits)

lemma well_formed_init: "well_formed (HospitalDistribution r c nh nho)"
  by (simp add: well_formed_def HospitalDistribution_def grid_dims_def list_all_iff)

lemma config_kept_refl [simp]: "config_kept s s"
  by (simp add: config_kept_def)

lemma place_hospital_step:
  assumes wf: "well_formed s" and inb: "in_grid s x y"
  shows "\<exists>s'. place_hospital s x y = Inr s' \<and> well_formed s' \<and> config_kept s s' \<and>
           houses s' = houses s \<and>
           (length (hospitals s') = length (hospitals s) \<or>
            length (hospitals s') = Suc (length (hospitals s)))"
proof -
  define np where "np = \<lparr>coord_id = next_id s, coord_x = x, coord_y = y\<rparr>"
  have nps [simp]: "coord_x np = x" "coord_y np = y" "coord_id np = next_id s"
    by (simp_all add: np_def)
  have gd: "grid_dims (grid s) (rows s) (cols s)" and min3: "MIN_HOSPITAL_DISTANCE s = 3"
    using wf by (simp_all add: well_formed_def)
  have xin: "0 \<le> x" "x < rows s" "0 \<le> y" "y < cols s" using inb by (auto simp: in_grid_def)
  have gg: "grid_get (grid s) x y = Inr (cell (grid s) x y)" using gd xin by (rule grid_get_cell)
  have gs: "grid_set (grid s) x y 2 = Inr (upd (grid s) x y 2)" using gd xin by (rule grid_set_upd)
  have fresh: "coord_id np \<notin> coord_id ` set (hospitals s)"
    using wf by (auto simp: well_formed_def)
  have add: "set_add np (hospitals s) = hospitals s @ [np]" using fresh by (rule set_add_fresh)
  show ?thesis
  proof (cases "cell (grid s) x y = 0 \<and> all_far 3 np (hospitals s)")
    case False
    then have "place_hospital s x y = Inr (s\<lparr>next_id := Suc (next_id s)\<rparr>)"
      by (auto simp: place_hospital_def Coordinate_def np_def [symmetric]
          is_valid_hospital_position_def gg min3)
    moreover have "well_formed (s\<lparr>next_id := Suc (next_id s)\<rparr>)"
      using wf by (rule same_model_well_formed [rotated]) (simp add: same_model_def)
    ultimately show ?thesis by (simp add: config_kept_def)
  next
    case True
    define s' where "s' = s\<lparr>next_id := Suc (next_id s), hospitals := hospitals s @ [np],
                           grid := upd (grid s) x y 2\<rparr>"
    from True have free: "cell (grid s) x y = 0"
      and far: "\<forall>h\<in>set (hospitals s). 3 \<le> distance_to np h"
      by (auto simp: all_far_iff not_less)
    have run: "place_hospital s x y = Inr s'"
      using True
      by (simp add: place_hospital_def Coordinate_def np_def [symmetric]
          is_valid_hospital_position_def gg min3 gs add s'_def)
    have cell': "cell (grid s') a b = (if a = x \<and> b = y then 2 else cell (grid s) a b)"
      if "0 \<le> a" "0 \<le> b" for a b
      using that by (simp add: s'_def cell_upd [OF gd xin])
    have "well_formed s'"
      unfolding well_formed_def
    proof (intro conjI ballI impI)
      show "grid_dims (grid s') (rows s') (cols s')" using gd by (simp add: s'_def)
      show "MIN_HOSPITAL_DISTANCE s' = 3" by (simp add: s'_def min3)
      show "distinct (map coord_id (hospitals s'))"
        using wf fresh by (simp add: s'_def well_formed_def)
      show "distinct (map coord_id (houses s'))"
        using wf by (simp add: s'_def well_formed_def)
      show "distinct (map (\<lambda>c. (coord_x c, coord_y c)) (houses s'))"
        using wf by (simp add: s'_def well_formed_def)
    next
      fix h assume "h \<in> set (hospitals s')"
      then consider "h = np" | "h \<in> set (hospitals s)" by (auto simp: s'_def)
      then show "coord_id h < next_id s'" using wf by cases (auto simp: s'_def well_formed_def)
      from \<open>h \<in> set (hospitals s')\<close> have hc: "h = np \<or> h \<in> set (hospitals s)" by (auto simp: s'_def)
      then have hin: "in_grid s (coord_x h) (coord_y h)"
        using inb wf by (auto simp: well_formed_def)
      then show "in_grid s' (coord_x h) (coord_y h)" by (simp add: in_grid_def s'_def)
      have nn: "0 \<le> coord_x h" "0 \<le> coord_y h" using hin by (simp_all add: in_grid_def)
      from hc show "cell (grid s') (coord_x h) (coord_y h) = 2"
        using wf by (auto simp: cell' [OF nn] well_formed_def)
    next
      fix a b assume ab: "a \<in> set (hospitals s')" "b \<in> set (hospitals s')" "coord_id a \<noteq> coord_id b"
      then consider (1) "a = np" "b \<in> set (hospitals s)" | (2) "b = np" "a \<in> set (hospitals s)"
        | (3) "a \<in> set (hospitals s)" "b \<in> set (hospitals s)"
        by (auto simp: s'_def)
      then show "3 \<le> distance_to a b"
      proof cases
        case 1
        with far show ?thesis by blast
      next
        case 2
        with far have "3 \<le> distance_to np a" by blast
        with 2 show ?thesis by (simp add: distance_to_commute)
      next
        case 3
        with wf ab(3) show ?thesis by (simp add: well_formed_def)
      qed
    next
      fix c assume "c \<in> set (houses s')"
      then have c: "c \<in> set (houses s)" by (simp add: s'_def)
      with wf have cw: "coord_id c < next_id s" "in_grid s (coord_x c) (coord_y c)"
        "cell (grid s) (coord_x c) (coord_y c) = 1"
        by (auto simp: well_formed_def)
      show "coord_id c < next_id s'" using cw(1) by (simp add: s'_def)
      show "in_grid s' (coord_x c) (coord_y c)" using cw(2) by (simp add: in_grid_def s'_def)
      have nn: "0 \<le> coord_x c" "0 \<le> coord_y c" using cw(2) by (simp_all add: in_grid_def)
      show "cell (grid s') (coord_x c) (coord_y c) = 1"
        using cw(3) free by (auto simp: cell' [OF nn])
    qed
    with run show ?thesis by (auto simp: config_kept_def s'_def)
  qed
qed

lemma place_house_step:
  assumes wf: "well_formed s" and inb: "in_grid s x y"
  shows "\<exists>s'. place_house s x y = Inr s' \<and> well_formed s' \<and> config_kept s s' \<and>
           hospitals s' = hospitals s \<and>
           (length (houses s') = length (houses s) \<or>
            length (houses s') = Suc (length (houses s)))"
proof -
  define np where "np = \<lparr>coord_id = next_id s, coord_x = x, coord_y = y\<rparr>"
  have nps [simp]: "coord_x np = x" "coord_y np = y" "coord_id np = next_id s"
    by (simp_all add: np_def)
  have gd: "grid_dims (grid s) (rows s) (cols s)"
    using wf by (simp_all add: well_formed_def)
  have xin: "0 \<le> x" "x < rows s" "0 \<le> y" "y < cols s" using inb by (auto simp: in_grid_def)
  have gg: "grid_get (grid s) x y = Inr (cell (grid s) x y)" using gd xin by (rule grid_get_cell)
  have gs: "grid_set (grid s) x y 1 = Inr (upd (grid s) x y 1)" using gd xin by (rule grid_set_upd)
  have fresh: "coord_id np \<notin> coord_id ` set (houses s)"
    using wf by (auto simp: well_formed_def)
  have add: "set_add np (houses s) = houses s @ [np]" using fresh by (rule set_add_fresh)
  show ?thesis
  proof (cases "cell (grid s) x y = 0")
    case False
    then have "place_house s x y = Inr (s\<lparr>next_id := Suc (next_id s)\<rparr>)"
      by (auto simp: place_house_def Coordinate_def gg)
    moreover have "well_formed (s\<lparr>next_id := Suc (next_id s)\<rparr>)"
      using wf by (rule same_model_well_formed [rotated]) (simp add: same_model_def)
    ultimately show ?thesis by (simp add: config_kept_def)
  next
    case True
    define s' where "s' = s\<lparr>next_id := Suc (next_id s), houses := houses s @ [np],
                           grid := upd (grid s) x y 1\<rparr>"
    have run: "place_house s x y = Inr s'"
      using True
      by (simp add: place_house_def Coordinate_def np_def [symmetric] gg gs add s'_def)
    have cell': "cell (grid s') a b = (if a = x \<and> b = y then 1 else cell (grid s) a b)"
      if "0 \<le> a" "0 \<le> b" for a b
      using that by (simp add: s'_def cell_upd [OF gd xin])
    have newpos: "(x, y) \<notin> (\<lambda>c. (coord_x c, coord_y c)) ` set (houses s)"
      using wf True by (auto simp: well_formed_def)
    have "well_formed s'"
      unfolding well_formed_def
    proof (intro conjI ballI impI)
      show "grid_dims (grid s') (rows s') (cols s')" using gd by (simp add: s'_def)
      show "MIN_HOSPITAL_DISTANCE s' = 3" using wf by (simp add: s'_def well_formed_def)
      show "distinct (map coord_id (hospitals s'))"
        using wf by (simp add: s'_def well_formed_def)
      show "distinct (map coord_id (houses s'))"
        using wf fresh by (simp add: s'_def well_formed_def)
      show "distinct (map (\<lambda>c. (coord_x c, coord_y c)) (houses s'))"
        using wf newpos by (simp add: s'_def well_formed_def)
    next
      fix h assume "h \<in> set (hospitals s')"
      then have h: "h \<in> set (hospitals s)" by (simp add: s'_def)
      with wf have hw: "coord_id h < next_id s" "in_grid s (coord_x h) (coord_y h)"
        "cell (grid s) (coord_x h) (coord_y h) = 2"
        by (auto simp: well_formed_def)
      show "coord_id h < next_id s'" using hw(1) by (simp add: s'_def)
      show "in_grid s' (coord_x h) (coord_y h)" using hw(2) by (simp add: in_grid_def s'_def)
      have nn: "0 \<le> coord_x h" "0 \<le> coord_y h" using hw(2) by (simp_all add: in_grid_def)
      show "cell (grid s') (coord_x h) (coord_y h) = 2"
        using hw(3) True by (auto simp: cell' [OF nn])
    next
      fix a b assume "a \<in> set (hospitals s')" "b \<in> set (hospitals s')" "coord_id a \<noteq> coord_id b"
      then show "3 \<le> distance_to a b" using wf by (simp add: s'_def well_formed_def)
    next
      fix c assume "c \<in> set (houses s')"
      then have hc: "c = np \<or> c \<in> set (houses s)" by (auto simp: s'_def)
      then show "coord_id c < next_id s'" using wf by (auto simp: s'_def well_formed_def)
      from hc have cin: "in_grid s (coord_x c) (coord_y c)"
        using inb wf by (auto simp: well_formed_def)
      then show "in_grid s' (coord_x c) (coord_y c)" by (simp add: in_grid_def s'_def)
      have nn: "0 \<le> coord_x c" "0 \<le> coord_y c" using cin by (simp_all add: in_grid_def)
      from hc show "cell (grid s') (coord_x c) (coord_y c) = 1"
        using wf by (auto simp: cell' [OF nn] well_formed_def)
    qed
    with run show ?thesis by (auto simp: config_kept_def s'_def)
  qed
qed

lemma place_hospitals_result:
  "well_formed s \<Longrightarrow> place_hospitals ds s = Some (Inr (s', ds')) \<Longrightarrow>
     well_formed s' \<and> config_kept s s' \<and> houses s' = houses s \<and>
     \<not> int (length (hospitals s')) < num_hospitals s \<and>
     (int (length (hospitals s)) \<le> num_hospitals s \<longrightarrow> int (length (hospitals s')) = num_hospitals s)"
proof (induction ds s rule: place_hospitals.induct)
  case (1 ds s)
  show ?case
  proof (cases "int (length (hospitals s)) < num_hospitals s")
    case False
    with "1.prems" show ?thesis by (simp add: place_hospitals.simps [of ds s])
  next
    case True
    from "1.prems"(2) True obtain x ds1 y ds2 s1
      where rx: "randint 0 (rows s - 1) ds = Some (Inr (x, ds1))"
        and ry: "randint 0 (cols s - 1) ds1 = Some (Inr (y, ds2))"
        and ph: "place_hospital s x y = Inr s1"
        and rec: "place_hospitals ds2 s1 = Some (Inr (s', ds'))"
      by (auto simp: place_hospitals.simps [of ds s] split: option.splits sum.splits)
    have inb: "in_grid s x y"
      using randint_range [OF rx] randint_range [OF ry] by (simp add: in_grid_def)
    from place_hospital_step [OF "1.prems"(1) inb] ph
    have wf1: "well_formed s1" and ck1: "config_kept s s1" and ho1: "houses s1 = houses s"
      and len1: "length (hospitals s1) = length (hospitals s) \<or>
                 length (hospitals s1) = Suc (length (hospitals s))"
      by auto
    have ih: "well_formed s' \<and> config_kept s1 s' \<and> houses s' = houses s1 \<and>
        \<not> int (length (hospitals s')) < num_hospitals s1 \<and>
        (int (length (hospitals s1)) \<le> num_hospitals s1 \<longrightarrow> int (length (hospitals s')) = num_hospitals s1)"
      using "1.IH" [OF True rx refl refl ry refl refl ph wf1 rec] .
    have "int (length (hospitals s1)) \<le> num_hospitals s1"
      using len1 True ck1 by (auto simp: config_kept_def)
    with ih ck1 ho1 show ?thesis
      by (auto simp: config_kept_def)
  qed
qed

lemma place_houses_result:
  "well_formed s \<Longrightarrow> place_houses ds s = Some (Inr (s', ds')) \<Longrightarrow>
     well_formed s' \<and> config_kept s s' \<and> hospitals s' = hospitals s \<and>
     \<not> int (length (houses s')) < num_houses s \<and>
     (int (length (houses s)) \<le> num_houses s \<longrightarrow> int (length (houses s')) = num_houses s)"
proof (induction ds s rule: place_houses.induct)
  case (1 ds s)
  show ?case
  proof (cases "int (length (houses s)) < num_houses s")
    case False
    with "1.prems" show ?thesis by (simp add: place_houses.simps [of ds s])
  next
    case True
    from "1.prems"(2) True obtain x ds1 y ds2 s1
      where rx: "randint 0 (rows s - 1) ds = Some (Inr (x, ds1))"
        and ry: "randint 0 (cols s - 1) ds1 = Some (Inr (y, ds2))"
        and ph: "place_house s x y = Inr s1"
        and rec: "place_houses ds2 s1 = Some (Inr (s', ds'))"
      by (auto simp: place_houses.simps [of ds s] split: option.splits sum.splits)
    have inb: "in_grid s x y"
      using randint_range [OF rx] randint_range [OF ry] by (simp add: in_grid_def)
    from place_house_step [OF "1.prems"(1) inb] ph
    have wf1: "well_formed s1" and ck1: "config_kept s s1" and ho1: "hospitals s1 = hospitals s"
      and len1: "length (houses s1) = length (houses s) \<or>
                 length (houses s1) = Suc (length (houses s))"
      by auto
    have ih: "well_formed s' \<and> config_kept s1 s' \<and> hospitals s' = hospitals s1 \<and>
        \<not> int (length (houses s')) < num_houses s1 \<and>
        (int (length (houses s1)) \<le> num_houses s1 \<longrightarrow> int (length (houses s')) = num_houses s1)"
      using "1.IH" [OF True rx refl refl ry refl refl ph wf1 rec] .
    have "int (length (houses s1)) \<le> num_houses s1"
      using len1 True ck1 by (auto simp: config_kept_def)
    with ih ck1 ho1 show ?thesis
      by (auto simp: config_kept_def)
  qed
qed

lemma initialize_result:
  assumes "initialize_random_positions ds (HospitalDistribution r c nh nho) = Some (Inr s)"
  shows "well_formed s \<and> rows s = r \<and> cols s = c \<and> num_hospitals s = nh \<and> num_houses s = nho \<and>
         (0 \<le> nh \<longrightarrow> int (length (hospitals s)) = nh) \<and>
         (0 \<le> nho \<longrightarrow> int (length (houses s)) = nho)"
proof -
  define s0 where "s0 = HospitalDistribution r c nh nho"
  have wf0: "well_formed s0" unfolding s0_def by (rule well_formed_init)
  have f0: "rows s0 = r" "cols s0 = c" "num_hospitals s0 = nh" "num_houses s0 = nho"
    "hospitals s0 = []" "houses s0 = []"
    by (simp_all add: s0_def HospitalDistribution_def)
  from assms obtain s1 ds1 ds2 where p1: "place_hospitals ds s0 = Some (Inr (s1, ds1))"
    and p2: "place_houses ds1 s1 = Some (Inr (s, ds2))"
    by (auto simp: initialize_random_positions_def s0_def split: option.splits sum.splits)
  note r1 = place_hospitals_result [OF wf0 p1]
  then have wf1: "well_formed s1" by simp
  note r2 = place_houses_result [OF wf1 p2]
  from r1 r2 show ?thesis
    by (auto simp: config_kept_def f0)
qed

lemma box_bound:
  assumes "distinct ps" and "set ps \<subseteq> {0..<r} \<times> {0..<c}"
  shows "length ps \<le> nat r * nat c"
proof -
  have "length ps = card (set ps)" using assms(1) by (simp add: distinct_card)
  also have "\<dots> \<le> card ({0..<r} \<times> {0..<c})"
    by (rule card_mono) (use assms(2) in auto)
  also have "\<dots> = nat r * nat c" by (simp add: card_cartesian_product)
  finally show ?thesis .
qed

lemma well_formed_placement: "well_formed s \<Longrightarrow> placement (rows s) (cols s) (hospitals s)"
  by (auto simp: well_formed_def placement_def in_grid_def)

lemma placement_positions:
  assumes "placement r c hs"
  shows "distinct (map (\<lambda>h. (coord_x h, coord_y h)) hs)"
proof -
  have d: "distinct hs" using assms by (auto simp: placement_def distinct_map)
  have "inj_on (\<lambda>h. (coord_x h, coord_y h)) (set hs)"
  proof (rule inj_onI)
    fix a b assume ab: "a \<in> set hs" "b \<in> set hs"
      and e: "(coord_x a, coord_y a) = (coord_x b, coord_y b)"
    then have "distance_to a b = 0" by (simp add: distance_to_def)
    with assms ab have "coord_id a = coord_id b" by (fastforce simp: placement_def)
    with assms ab show "a = b" by (auto simp: placement_def distinct_map inj_on_def)
  qed
  with d show ?thesis by (simp add: distinct_map)
qed

lemma placement_bound:
  assumes "placement r c hs"
  shows "length hs \<le> nat r * nat c"
proof -
  have "set (map (\<lambda>h. (coord_x h, coord_y h)) hs) \<subseteq> {0..<r} \<times> {0..<c}"
    using assms by (auto simp: placement_def)
  with placement_positions [OF assms]
  have "length (map (\<lambda>h. (coord_x h, coord_y h)) hs) \<le> nat r * nat c"
    by (rule box_bound)
  then show ?thesis by simp
qed

lemma capacity:
  assumes wf: "well_formed s"
  shows "length (hospitals s) + length (houses s) \<le> nat (rows s) * nat (cols s)"
proof -
  let ?pos = "\<lambda>h. (coord_x h, coord_y h)"
  have d1: "distinct (map ?pos (hospitals s))"
    using well_formed_placement [OF wf] by (rule placement_positions)
  have d2: "distinct (map ?pos (houses s))" using wf by (simp add: well_formed_def)
  have dj: "?pos ` set (hospitals s) \<inter> ?pos ` set (houses s) = {}"
  proof (rule ccontr)
    assume "\<not> ?thesis"
    then obtain a b where ab: "a \<in> set (hospitals s)" "b \<in> set (houses s)" "?pos a = ?pos b"
      by auto
    with wf have "cell (grid s) (coord_x a) (coord_y a) = 2" "cell (grid s) (coord_x b) (coord_y b) = 1"
      by (auto simp: well_formed_def)
    with ab(3) show False by simp
  qed
  have "distinct (map ?pos (hospitals s @ houses s))"
    using d1 d2 dj by simp
  moreover have "set (map ?pos (hospitals s @ houses s)) \<subseteq> {0..<rows s} \<times> {0..<cols s}"
    using wf by (auto simp: well_formed_def in_grid_def)
  ultimately have "length (map ?pos (hospitals s @ houses s)) \<le> nat (rows s) * nat (cols s)"
    by (rule box_bound)
  then show ?thesis by simp
qed

lemma place_hospitals_never:
  "well_formed s \<Longrightarrow> 1 \<le> rows s \<Longrightarrow> 1 \<le> cols s \<Longrightarrow>
   \<forall>hs. placement (rows s) (cols s) hs \<longrightarrow> int (length hs) < num_hospitals s \<Longrightarrow>
   place_hospitals ds s = None"
proof (induction ds s rule: place_hospitals.induct)
  case (1 ds s)
  have cond: "int (length (hospitals s)) < num_hospitals s"
    using "1.prems"(4) well_formed_placement [OF "1.prems"(1)] by blast
  show ?case
  proof (cases "randint 0 (rows s - 1) ds")
    case None
    with cond show ?thesis by (simp add: place_hospitals.simps [of ds s])
  next
    case (Some a)
    with randint_no_error [OF "1.prems"(2), of ds] obtain x ds1 where rx: "randint 0 (rows s - 1) ds = Some (Inr (x, ds1))"
      by (cases a) auto
    show ?thesis
    proof (cases "randint 0 (cols s - 1) ds1")
      case None
      with cond rx show ?thesis by (simp add: place_hospitals.simps [of ds s])
    next
      case (Some b)
      with randint_no_error [OF "1.prems"(3), of ds1] obtain y ds2 where ry: "randint 0 (cols s - 1) ds1 = Some (Inr (y, ds2))"
        by (cases b) auto
      have inb: "in_grid s x y"
        using randint_range [OF rx] randint_range [OF ry] by (simp add: in_grid_def)
      from place_hospital_step [OF "1.prems"(1) inb] obtain s1 where ph: "place_hospital s x y = Inr s1"
        and wf1: "well_formed s1" and ck1: "config_kept s s1"
        by blast
      have "place_hospitals ds2 s1 = None"
        using "1.IH" [OF cond rx refl refl ry refl refl ph wf1] "1.prems"(2,3,4) ck1
        by (simp add: config_kept_def)
      then show ?thesis
        using cond rx ry ph by (simp add: place_hospitals.simps [of ds s])
    qed
  qed
qed

lemma place_houses_never:
  "well_formed s \<Longrightarrow> 1 \<le> rows s \<Longrightarrow> 1 \<le> cols s \<Longrightarrow>
   rows s * cols s < int (length (hospitals s)) + num_houses s \<Longrightarrow>
   place_houses ds s = None"
proof (induction ds s rule: place_houses.induct)
  case (1 ds s)
  have "int (length (hospitals s) + length (houses s)) \<le> int (nat (rows s) * nat (cols s))"
    using capacity [OF "1.prems"(1)] by (simp only: zle_int)
  also have "\<dots> = rows s * cols s" using "1.prems"(2,3) by (simp add: nat_mult_distrib)
  finally have cond: "int (length (houses s)) < num_houses s"
    using "1.prems"(4) by simp
  show ?case
  proof (cases "randint 0 (rows s - 1) ds")
    case None
    with cond show ?thesis by (simp add: place_houses.simps [of ds s])
  next
    case (Some a)
    with randint_no_error [OF "1.prems"(2), of ds] obtain x ds1 where rx: "randint 0 (rows s - 1) ds = Some (Inr (x, ds1))"
      by (cases a) auto
    show ?thesis
    proof (cases "randint 0 (cols s - 1) ds1")
      case None
      with cond rx show ?thesis by (simp add: place_houses.simps [of ds s])
    next
      case (Some b)
      with randint_no_error [OF "1.prems"(3), of ds1] obtain y ds2 where ry: "randint 0 (cols s - 1) ds1 = Some (Inr (y, ds2))"
        by (cases b) auto
      have inb: "in_grid s x y"
        using randint_range [OF rx] randint_range [OF ry] by (simp add: in_grid_def)
      from place_house_step [OF "1.prems"(1) inb] obtain s1 where ph: "place_house s x y = Inr s1"
        and wf1: "well_formed s1" and ck1: "config_kept s s1" and ho1: "hospitals s1 = hospitals s"
        by blast
      have "place_houses ds2 s1 = None"
        using "1.IH" [OF cond rx refl refl ry refl refl ph wf1] "1.prems"(2,3,4) ck1 ho1
        by (simp add: config_kept_def)
      then show ?thesis
        using cond rx ry ph by (simp add: place_houses.simps [of ds s])
    qed
  qed
qed

subsection \<open>Reachable models are well formed\<close>

lemma example_initialized:
  "initialize_random_positions [0, 0, 0, 3, 1, 1, 2, 2, 4, 4] (HospitalDistribution 5 5 2 3)
     = Some (Inr example_model)"
  by code_simp

lemma example_reachable: "reachable example_model"
  using example_initialized by (rule reachable.initialized)

lemma iteration_order_id: "iteration_order (\<lambda>cs. cs)"
  by (simp add: iteration_order_def)

lemma reachable_invariant:
  "reachable s \<Longrightarrow>
     well_formed s \<and>
     (0 \<le> num_hospitals s \<longrightarrow> int (length (hospitals s)) = num_hospitals s) \<and>
     (0 \<le> num_houses s \<longrightarrow> int (length (houses s)) = num_houses s)"
proof (induction rule: reachable.induct)
  case (initialized ds r c nh nho s)
  from initialize_result [OF initialized] show ?case by simp
next
  case (optimized s ord s')
  then have wf: "well_formed s" by simp
  from while_improved_total [OF wf optimized.hyps(2)] optimized.hyps(3)
  have "frame s s'" "well_formed s'" by (auto simp: optimize_distribution_def)
  with optimized.IH show ?case by (simp add: frame_def)
next
  case (relocated s h b i s' b' i')
  then have wf: "well_formed s" by simp
  from relocate_step [OF wf relocated.hyps(2), of b i] relocated.hyps(3)
  have "frame s s'" "well_formed s'" by auto
  with relocated.IH show ?case by (simp add: frame_def)
qed

lemma well_formed_apart: "well_formed s \<Longrightarrow> hospitals_apart s"
  by (simp add: well_formed_def hospitals_apart_def coordinate_eq_def)

section \<open>The claims\<close>

text \<open>
  C1. In every reachable model state, that is after \<^verbatim>\<open>initialize_random_positions\<close>, after
  any number of calls of \<^verbatim>\<open>optimize_distribution\<close>, and after every single move that the
  optimizer commits inside a call, every two different hospitals are at Manhattan distance
  at least 3.
\<close>

theorem hospitals_stay_apart:
  "reachable s \<Longrightarrow> hospitals_apart s"
  using reachable_invariant well_formed_apart by blast

theorem hospitals_stay_apart_witness:
  "reachable example_model \<and> hospitals_apart example_model"
  using hospitals_stay_apart [OF example_reachable] example_reachable by simp

lemma converged_initialized:
  "initialize_random_positions [0, 0, 0, 1] (HospitalDistribution 2 2 1 1) = Some (Inr converged_model)"
  by code_simp

lemma converged_reachable: "reachable converged_model"
  using converged_initialized by (rule reachable.initialized)

lemma converged_no_relocation: "no_relocation (\<lambda>cs. cs) converged_model"
  by code_simp

lemma no_relocation_iff:
  assumes "well_formed s" and "iteration_order ord"
  shows "no_relocation ord s \<longleftrightarrow> locally_optimal s"
  using sweep_step [OF assms] by (auto simp: no_relocation_def)

lemma optimize_distribution_total:
  assumes "well_formed s" and "iteration_order ord"
  shows "\<exists>s'. optimize_distribution ord s = Some (Inr s') \<and> frame s s' \<and>
           well_formed s' \<and> calculate_score s' \<le> calculate_score s \<and> locally_optimal s' \<and>
           (locally_optimal s \<longrightarrow> same_model s s')"
  unfolding optimize_distribution_def using assms by (rule while_improved_total)

text \<open>
  C2. For every reachable model and every order of iteration, a call of
  \<^verbatim>\<open>optimize_distribution\<close> returns, and the score of the model it returns is at most the
  score before the call.
\<close>

theorem score_never_increases:
  assumes "reachable s" and "iteration_order ord"
  shows "\<exists>s'. optimize_distribution ord s = Some (Inr s') \<and> calculate_score s' \<le> calculate_score s"
proof -
  have "well_formed s" using assms(1) reachable_invariant by blast
  from optimize_distribution_total [OF this assms(2)] show ?thesis by blast
qed

theorem score_never_increases_witness:
  "reachable example_model \<and> iteration_order (\<lambda>cs. cs) \<and>
   (\<exists>s'. optimize_distribution (\<lambda>cs. cs) example_model = Some (Inr s') \<and>
         calculate_score s' \<le> calculate_score example_model)"
  using score_never_increases [OF example_reachable iteration_order_id]
    example_reachable iteration_order_id by simp


lemma house_cells:
  assumes "well_formed s" and "c \<in> set (houses s)"
  shows "grid_get (grid s) (coord_x c) (coord_y c) = Inr 1"
proof -
  from assms have gd: "grid_dims (grid s) (rows s) (cols s)"
    and inb: "in_grid s (coord_x c) (coord_y c)"
    and one: "cell (grid s) (coord_x c) (coord_y c) = 1"
    by (auto simp: well_formed_def)
  from inb have "0 \<le> coord_x c" "coord_x c < rows s" "0 \<le> coord_y c" "coord_y c < cols s"
    by (auto simp: in_grid_def)
  with gd have "grid_get (grid s) (coord_x c) (coord_y c) = Inr (cell (grid s) (coord_x c) (coord_y c))"
    by (rule grid_get_cell)
  with one show ?thesis by simp
qed

text \<open>
  C4. In every reachable model with non-negative requested counts, the hospital set has
  \<^verbatim>\<open>num_hospitals\<close> members and the house set \<^verbatim>\<open>num_houses\<close> members. A call of
  \<^verbatim>\<open>optimize_distribution\<close> returns a model with as many hospitals, with the same house set
  and the same requested counts, and every cell of a house holds 1 before and after the
  call.
\<close>

theorem counts_conserved:
  assumes "reachable s" and "0 \<le> num_hospitals s" and "0 \<le> num_houses s"
    and "iteration_order ord"
  shows "int (length (hospitals s)) = num_hospitals s \<and> int (length (houses s)) = num_houses s \<and>
         (\<exists>s'. optimize_distribution ord s = Some (Inr s') \<and>
               length (hospitals s') = length (hospitals s) \<and> houses s' = houses s \<and>
               num_hospitals s' = num_hospitals s \<and> num_houses s' = num_houses s \<and>
               (\<forall>c\<in>set (houses s).
                  grid_get (grid s) (coord_x c) (coord_y c) = Inr 1 \<and>
                  grid_get (grid s') (coord_x c) (coord_y c) = Inr 1))"
proof -
  from reachable_invariant [OF assms(1)] assms(2,3)
  have wf: "well_formed s" and n: "int (length (hospitals s)) = num_hospitals s"
    "int (length (houses s)) = num_houses s"
    by simp_all
  from optimize_distribution_total [OF wf assms(4)]
  obtain s' where o: "optimize_distribution ord s = Some (Inr s')" and fr: "frame s s'"
    and wf': "well_formed s'"
    by blast
  have "\<forall>c\<in>set (houses s).
          grid_get (grid s) (coord_x c) (coord_y c) = Inr 1 \<and>
          grid_get (grid s') (coord_x c) (coord_y c) = Inr 1"
    using house_cells [OF wf] house_cells [OF wf'] fr by (simp add: frame_def)
  with n o fr show ?thesis by (simp add: frame_def)
qed

theorem counts_conserved_witness:
  "reachable example_model \<and> 0 \<le> num_hospitals example_model \<and> 0 \<le> num_houses example_model \<and>
   iteration_order (\<lambda>cs. cs) \<and>
   length (hospitals example_model) = 2 \<and> length (houses example_model) = 3 \<and>
   (\<exists>s'. optimize_distribution (\<lambda>cs. cs) example_model = Some (Inr s') \<and>
         length (hospitals s') = 2 \<and> houses s' = houses example_model)"
proof -
  have a: "0 \<le> num_hospitals example_model" "0 \<le> num_houses example_model"
    by (simp_all add: example_model_def)
  have l: "length (hospitals example_model) = 2" "length (houses example_model) = 3"
    by (simp_all add: example_model_def)
  from counts_conserved [OF example_reachable a iteration_order_id]
  show ?thesis using example_reachable a iteration_order_id l by auto
qed

text \<open>
  C5. For every reachable model a call of \<^verbatim>\<open>optimize_distribution\<close> terminates without an
  exception, in a state in which a sweep relocates nothing; and whenever a sweep ends with
  \<^verbatim>\<open>improved\<close> true, the score after it is strictly below the score before it, which is
  why there are only finitely many sweeps.
\<close>

theorem optimize_distribution_terminates:
  assumes "reachable s" and "iteration_order ord"
  shows "(\<exists>s'. optimize_distribution ord s = Some (Inr s') \<and> no_relocation ord s') \<and>
         (\<forall>s1 b1. sweep ord s (calculate_score s) = Inr (s1, b1, True) \<longrightarrow>
            b1 = calculate_score s1 \<and> calculate_score s1 < calculate_score s)"
proof -
  have wf: "well_formed s" using assms(1) reachable_invariant by blast
  from optimize_distribution_total [OF wf assms(2)]
  obtain s' where o: "optimize_distribution ord s = Some (Inr s')" and wf': "well_formed s'"
    and lo: "locally_optimal s'"
    by blast
  have "no_relocation ord s'" using lo by (simp add: no_relocation_iff [OF wf' assms(2)])
  moreover have "b1 = calculate_score s1 \<and> calculate_score s1 < calculate_score s"
    if "sweep ord s (calculate_score s) = Inr (s1, b1, True)" for s1 b1
    using sweep_step [OF wf assms(2)] that by (auto split: if_splits)
  ultimately show ?thesis using o by blast
qed

theorem optimize_distribution_terminates_witness:
  "reachable example_model \<and> iteration_order (\<lambda>cs. cs) \<and>
   (\<exists>s'. optimize_distribution (\<lambda>cs. cs) example_model = Some (Inr s') \<and>
         no_relocation (\<lambda>cs. cs) s')"
  using optimize_distribution_terminates [OF example_reachable iteration_order_id]
    example_reachable iteration_order_id by simp

text \<open>
  C6. If a call of \<^verbatim>\<open>optimize_distribution\<close> on a reachable model commits no relocation,
  it leaves the hospital set, the grid, the houses and the score unchanged, and a further
  call (in any order of iteration) commits no relocation either and again leaves them
  unchanged.
\<close>

theorem converged_is_fixpoint:
  assumes "reachable s" and "iteration_order ord" and "iteration_order ord'"
    and "no_relocation ord s"
  shows "\<exists>s'. optimize_distribution ord s = Some (Inr s') \<and>
           set (hospitals s') = set (hospitals s) \<and> grid s' = grid s \<and> houses s' = houses s \<and>
           calculate_score s' = calculate_score s \<and>
           no_relocation ord' s' \<and>
           (\<exists>s''. optimize_distribution ord' s' = Some (Inr s'') \<and>
              set (hospitals s'') = set (hospitals s') \<and> grid s'' = grid s' \<and>
              houses s'' = houses s' \<and> calculate_score s'' = calculate_score s')"
proof -
  have wf: "well_formed s" using assms(1) reachable_invariant by blast
  have lo: "locally_optimal s" using assms(4) by (simp add: no_relocation_iff [OF wf assms(2)])
  from optimize_distribution_total [OF wf assms(2)] lo
  obtain s' where o: "optimize_distribution ord s = Some (Inr s')" and wf': "well_formed s'"
    and lo': "locally_optimal s'" and sm: "same_model s s'"
    by blast
  from optimize_distribution_total [OF wf' assms(3)] lo'
  obtain s'' where o': "optimize_distribution ord' s' = Some (Inr s'')" and sm': "same_model s' s''"
    by blast
  have "no_relocation ord' s'" using lo' by (simp add: no_relocation_iff [OF wf' assms(3)])
  with o o' show ?thesis
    using same_model_fields [OF sm] same_model_fields [OF sm'] same_model_score [OF sm]
      same_model_score [OF sm']
    by auto
qed

theorem converged_is_fixpoint_witness:
  "reachable converged_model \<and> iteration_order (\<lambda>cs. cs) \<and> iteration_order rev \<and>
   no_relocation (\<lambda>cs. cs) converged_model \<and>
   (\<exists>s'. optimize_distribution (\<lambda>cs. cs) converged_model = Some (Inr s') \<and>
      set (hospitals s') = set (hospitals converged_model) \<and> grid s' = grid converged_model \<and>
      no_relocation rev s' \<and>
      (\<exists>s''. optimize_distribution rev s' = Some (Inr s'') \<and>
         set (hospitals s'') = set (hospitals s') \<and> grid s'' = grid s'))"
proof -
  have r: "iteration_order rev" by (simp add: iteration_order_def)
  from converged_is_fixpoint [OF converged_reachable iteration_order_id r converged_no_relocation]
  show ?thesis using converged_reachable iteration_order_id r converged_no_relocation by blast
qed

subsection \<open>The score as a sum of minima\<close>

lemma fold_min_Min:
  fixes a :: enat
  shows "fold (\<lambda>h m. min m (g h)) hs a = Min (insert a (g ` set hs))"
proof (induction hs arbitrary: a)
  case Nil
  then show ?case by simp
next
  case (Cons h hs)
  have "Min (insert (min a (g h)) (g ` set hs)) = Min (insert a (insert (g h) (g ` set hs)))"
    by (cases "set hs = {}") (simp_all add: min.assoc)
  with Cons show ?case by simp
qed

lemma min_distance_Min:
  assumes "hs \<noteq> []"
  shows "min_distance house hs = enat (nat (Min (distance_to house ` set hs)))"
proof -
  let ?g = "\<lambda>z::int. enat (nat z)"
  have ne: "distance_to house ` set hs \<noteq> {}" using assms by simp
  have "min_distance house hs = Min (insert \<infinity> ((\<lambda>h. ?g (distance_to house h)) ` set hs))"
    by (simp add: min_distance_def fold_min_Min)
  also have "\<dots> = Min ((\<lambda>h. ?g (distance_to house h)) ` set hs)"
    using assms by (simp add: min_def)
  also have "(\<lambda>h. ?g (distance_to house h)) ` set hs = ?g ` (distance_to house ` set hs)"
    by (simp add: image_image)
  also have "Min (?g ` (distance_to house ` set hs)) = ?g (Min (distance_to house ` set hs))"
    by (rule mono_Min_commute [symmetric]) (use ne in \<open>auto simp: mono_def\<close>)
  finally show ?thesis .
qed

lemma fold_plus_sum:
  fixes a :: enat
  shows "fold (\<lambda>x t. t + m x) xs a = a + sum_list (map m xs)"
  by (induction xs arbitrary: a) (simp_all add: add.assoc)

lemma sum_list_enat_nat:
  "(\<And>x. x \<in> set xs \<Longrightarrow> 0 \<le> f x) \<Longrightarrow>
   sum_list (map (\<lambda>x. enat (nat (f x))) xs) = enat (nat (sum_list (map f xs))) \<and> 0 \<le> sum_list (map f xs)"
proof (induction xs)
  case Nil
  then show ?case by (simp add: zero_enat_def)
next
  case (Cons a xs)
  then have "0 \<le> f a" "sum_list (map (\<lambda>x. enat (nat (f x))) xs) = enat (nat (sum_list (map f xs)))"
    "0 \<le> sum_list (map f xs)"
    by simp_all
  then show ?case by (simp add: nat_add_distrib)
qed

lemma Min_distance_nonneg: "hs \<noteq> [] \<Longrightarrow> 0 \<le> Min (distance_to house ` set hs)"
  by (simp add: distance_to_def)

lemma calculate_score_spec:
  assumes "hospitals s \<noteq> []"
  shows "calculate_score s = enat (nat (score_spec s))" and "0 \<le> score_spec s"
proof -
  have "calculate_score s = sum_list (map (\<lambda>house. min_distance house (hospitals s)) (houses s))"
    by (simp add: calculate_score_def fold_plus_sum)
  also have "\<dots> = sum_list (map (\<lambda>house. enat (nat (Min (distance_to house ` set (hospitals s))))) (houses s))"
    using assms by (simp add: min_distance_Min)
  finally have e: "calculate_score s =
      sum_list (map (\<lambda>house. enat (nat (Min (distance_to house ` set (hospitals s))))) (houses s))" .
  note s = sum_list_enat_nat [of "houses s" "\<lambda>house. Min (distance_to house ` set (hospitals s))",
      OF Min_distance_nonneg [OF assms]]
  from e s show "calculate_score s = enat (nat (score_spec s))" by (simp add: score_spec_def)
  from s show "0 \<le> score_spec s" by (simp add: score_spec_def)
qed

text \<open>
  C3. For a model with at least one hospital, \<^verbatim>\<open>_calculate_score\<close> returns the integer
  that is the sum, over the houses, of the least Manhattan distance to a hospital. With
  one hospital at (0, 0) and one house at (4, 4) the score is 8, and without houses it
  is 0.
\<close>

theorem score_is_sum_of_minima:
  "(hospitals s \<noteq> [] \<longrightarrow> calculate_score s = enat (nat (score_spec s)) \<and> 0 \<le> score_spec s) \<and>
   (hospitals s = [h] \<and> coord_x h = 0 \<and> coord_y h = 0 \<and>
    houses s = [c] \<and> coord_x c = 4 \<and> coord_y c = 4 \<longrightarrow> calculate_score s = 8) \<and>
   (houses s = [] \<longrightarrow> calculate_score s = 0)"
proof (intro conjI impI)
  assume "hospitals s \<noteq> []"
  then show "calculate_score s = enat (nat (score_spec s))" "0 \<le> score_spec s"
    by (rule calculate_score_spec)+
next
  assume "hospitals s = [h] \<and> coord_x h = 0 \<and> coord_y h = 0 \<and>
    houses s = [c] \<and> coord_x c = 4 \<and> coord_y c = 4"
  then show "calculate_score s = 8"
    by (simp add: calculate_score_def min_distance_def distance_to_def numeral_eq_enat)
next
  assume "houses s = []"
  then show "calculate_score s = 0" by (simp add: calculate_score_def)
qed

theorem score_is_sum_of_minima_witness:
  "hospitals example_model \<noteq> [] \<and> score_spec example_model = 10 \<and>
   calculate_score example_model = 10 \<and>
   calculate_score (example_model\<lparr>hospitals := [\<lparr>coord_id = 0, coord_x = 0, coord_y = 0\<rparr>],
                     houses := [\<lparr>coord_id = 1, coord_x = 4, coord_y = 4\<rparr>]\<rparr>) = 8 \<and>
   calculate_score (example_model\<lparr>houses := []\<rparr>) = 0"
proof -
  have ne: "hospitals example_model \<noteq> []" by (simp add: example_model_def)
  have sp: "score_spec example_model = 10"
    by (simp add: score_spec_def example_model_def distance_to_def)
  from score_is_sum_of_minima [of example_model, THEN conjunct1] ne sp
  have a: "calculate_score example_model = 10" by (simp add: numeral_eq_enat)
  have b: "calculate_score (example_model\<lparr>hospitals := [\<lparr>coord_id = 0, coord_x = 0, coord_y = 0\<rparr>],
                     houses := [\<lparr>coord_id = 1, coord_x = 4, coord_y = 4\<rparr>]\<rparr>) = 8"
    using score_is_sum_of_minima [of "example_model\<lparr>hospitals := [\<lparr>coord_id = 0, coord_x = 0, coord_y = 0\<rparr>],
                     houses := [\<lparr>coord_id = 1, coord_x = 4, coord_y = 4\<rparr>]\<rparr>"
        "\<lparr>coord_id = 0, coord_x = 0, coord_y = 0\<rparr>" "\<lparr>coord_id = 1, coord_x = 4, coord_y = 4\<rparr>",
        THEN conjunct2, THEN conjunct1]
    by simp
  have c: "calculate_score (example_model\<lparr>houses := []\<rparr>) = 0"
    using score_is_sum_of_minima [of "example_model\<lparr>houses := []\<rparr>", THEN conjunct2, THEN conjunct2]
    by simp
  from ne sp a b c show ?thesis by simp
qed

subsection \<open>Initialization without a feasible placement\<close>

lemma place_hospitals_no_error:
  "well_formed s \<Longrightarrow> 1 \<le> rows s \<Longrightarrow> 1 \<le> cols s \<Longrightarrow> place_hospitals ds s \<noteq> Some (Inl e)"
proof (induction ds s rule: place_hospitals.induct)
  case (1 ds s)
  show ?case
  proof (cases "int (length (hospitals s)) < num_hospitals s")
    case False
    then show ?thesis by (simp add: place_hospitals.simps [of ds s])
  next
    case cond: True
    show ?thesis
    proof (cases "randint 0 (rows s - 1) ds")
      case None
      with cond show ?thesis by (simp add: place_hospitals.simps [of ds s])
    next
      case (Some a)
      with randint_no_error [OF "1.prems"(2), of ds] obtain x ds1
        where rx: "randint 0 (rows s - 1) ds = Some (Inr (x, ds1))"
        by (cases a) auto
      show ?thesis
      proof (cases "randint 0 (cols s - 1) ds1")
        case None
        with cond rx show ?thesis by (simp add: place_hospitals.simps [of ds s])
      next
        case (Some b)
        with randint_no_error [OF "1.prems"(3), of ds1] obtain y ds2
          where ry: "randint 0 (cols s - 1) ds1 = Some (Inr (y, ds2))"
          by (cases b) auto
        have inb: "in_grid s x y"
          using randint_range [OF rx] randint_range [OF ry] by (simp add: in_grid_def)
        from place_hospital_step [OF "1.prems"(1) inb] obtain s1
          where ph: "place_hospital s x y = Inr s1"
            and wf1: "well_formed s1" and ck1: "config_kept s s1"
          by blast
        have "place_hospitals ds2 s1 \<noteq> Some (Inl e)"
          using "1.IH" [OF cond rx refl refl ry refl refl ph wf1] "1.prems"(2,3) ck1
          by (simp add: config_kept_def)
        then show ?thesis
          using cond rx ry ph by (simp add: place_hospitals.simps [of ds s])
      qed
    qed
  qed
qed

lemma two_by_two_too_small:
  assumes "placement 2 2 hs"
  shows "int (length hs) < 2"
proof (rule ccontr)
  assume "\<not> int (length hs) < 2"
  then obtain a b rest where hs: "hs = a # b # rest"
    by (cases hs; cases "tl hs") auto
  with assms have "coord_id a \<noteq> coord_id b" by (auto simp: placement_def)
  with assms hs have "3 \<le> distance_to a b" by (auto simp: placement_def)
  moreover from assms hs have "0 \<le> coord_x a" "coord_x a < 2" "0 \<le> coord_y a" "coord_y a < 2"
    "0 \<le> coord_x b" "coord_x b < 2" "0 \<le> coord_y b" "coord_y b < 2"
    by (auto simp: placement_def)
  ultimately show False by (simp add: distance_to_def)
qed

text \<open>
  C7 says that \<^verbatim>\<open>initialize_random_positions\<close> raises an error when the grid is too
  small for the requested hospitals. On a 2 by 2 grid no two cells are at distance 3, and
  with two hospitals requested the call has neither raised nor returned after the samples
  (0, 0), (1, 1), (0, 1), (1, 0): the first is accepted, the others are rejected, and the
  loop asks for more.
\<close>

theorem too_small_grid_counterexample:
  "initialize_random_positions [0, 0, 1, 1, 0, 1, 1, 0] (HospitalDistribution 2 2 2 0) = None"
  by code_simp

text \<open>
  C7, as the code has it. The code has no feasibility check and no error of its own. On a
  grid with at least one row and one column, when no placement of the requested number of
  hospitals at pairwise distance at least 3 fits the grid, or when the hospitals and
  houses together outnumber the cells, the call raises nothing and does not return:
  whatever random numbers it has received, it is still sampling.
\<close>

theorem infeasible_initialization_never_returns:
  assumes "1 \<le> r" and "1 \<le> c"
    and "(\<forall>hs. placement r c hs \<longrightarrow> int (length hs) < nh) \<or> (0 \<le> nh \<and> r * c < nh + nho)"
  shows "initialize_random_positions ds (HospitalDistribution r c nh nho) = None"
proof -
  define s0 where "s0 = HospitalDistribution r c nh nho"
  have wf0: "well_formed s0" unfolding s0_def by (rule well_formed_init)
  have f0: "rows s0 = r" "cols s0 = c" "num_hospitals s0 = nh" "num_houses s0 = nho"
    "hospitals s0 = []"
    by (simp_all add: s0_def HospitalDistribution_def)
  have r0: "1 \<le> rows s0" "1 \<le> cols s0" using assms(1,2) by (simp_all add: f0)
  from assms(3) have "initialize_random_positions ds s0 = None"
  proof
    assume "\<forall>hs. placement r c hs \<longrightarrow> int (length hs) < nh"
    then have "place_hospitals ds s0 = None"
      by (intro place_hospitals_never [OF wf0 r0]) (simp add: f0)
    then show ?thesis by (simp add: initialize_random_positions_def)
  next
    assume b: "0 \<le> nh \<and> r * c < nh + nho"
    show ?thesis
    proof (cases "place_hospitals ds s0")
      case None
      then show ?thesis by (simp add: initialize_random_positions_def)
    next
      case (Some a)
      with place_hospitals_no_error [OF wf0 r0, of ds] obtain s1 ds1
        where p1: "place_hospitals ds s0 = Some (Inr (s1, ds1))"
        by (cases a) auto
      note r1 = place_hospitals_result [OF wf0 p1]
      from r1 b have wf1: "well_formed s1" and len: "int (length (hospitals s1)) = nh"
        and ck: "config_kept s0 s1"
        by (simp_all add: f0)
      have "place_houses ds1 s1 = None"
        using wf1 r0 b len ck
        by (intro place_houses_never) (simp_all add: config_kept_def f0)
      with p1 show ?thesis by (simp add: initialize_random_positions_def)
    qed
  qed
  then show ?thesis by (simp add: s0_def)
qed

theorem infeasible_initialization_never_returns_witness:
  "(1::int) \<le> 2 \<and> (0 \<le> (1::int) \<and> (2::int) * 2 < 1 + 4) \<and>
   initialize_random_positions [0, 0, 1, 1, 0, 1] (HospitalDistribution 2 2 2 0) = None \<and>
   initialize_random_positions [0, 0, 1, 1, 0, 1, 1, 0, 0, 1] (HospitalDistribution 2 2 1 4) = None"
proof -
  have a: "(\<forall>hs. placement 2 2 hs \<longrightarrow> int (length hs) < 2) \<or> (0 \<le> (2::int) \<and> (2::int) * 2 < 2 + 0)"
    using two_by_two_too_small by blast
  have b: "(\<forall>hs. placement 2 2 hs \<longrightarrow> int (length hs) < 1) \<or> (0 \<le> (1::int) \<and> (2::int) * 2 < 1 + 4)"
    by simp
  have one: "(1::int) \<le> 2" by simp
  from infeasible_initialization_never_returns [OF one one a, of "[0, 0, 1, 1, 0, 1]"]
    infeasible_initialization_never_returns [OF one one b, of "[0, 0, 1, 1, 0, 1, 1, 0, 0, 1]"]
  show ?thesis by simp
qed

subsection \<open>Identity of coordinates\<close>

text \<open>
  C8 says that two coordinates with equal row and column compare equal and count once in
  a set. Two objects constructed one after the other with the same arguments 2 and 3 have
  equal fields, but compare unequal, and a set to which both are added has two members.
\<close>

theorem equal_fields_counterexample:
  "coord_x (fst (Coordinate (HospitalDistribution 5 5 1 1) 2 3)) =
     coord_x (fst (Coordinate (snd (Coordinate (HospitalDistribution 5 5 1 1) 2 3)) 2 3)) \<and>
   coord_y (fst (Coordinate (HospitalDistribution 5 5 1 1) 2 3)) =
     coord_y (fst (Coordinate (snd (Coordinate (HospitalDistribution 5 5 1 1) 2 3)) 2 3)) \<and>
   \<not> coordinate_eq (fst (Coordinate (HospitalDistribution 5 5 1 1) 2 3))
       (fst (Coordinate (snd (Coordinate (HospitalDistribution 5 5 1 1) 2 3)) 2 3)) \<and>
   length (set_add (fst (Coordinate (snd (Coordinate (HospitalDistribution 5 5 1 1) 2 3)) 2 3))
            (set_add (fst (Coordinate (HospitalDistribution 5 5 1 1) 2 3)) [])) = 2"
  by (simp add: Coordinate_def HospitalDistribution_def coordinate_eq_def set_add_def set_contains_def)

text \<open>
  C8, as the code has it. \<^verbatim>\<open>Coordinate\<close> defines neither \<^verbatim>\<open>__eq__\<close> nor \<^verbatim>\<open>__hash__\<close>:
  an object is equal to itself, two objects are equal exactly when their hashes (their
  identities) are, adding an object twice leaves one member, and two objects constructed
  by two calls of the constructor, with whatever arguments, are unequal and are two
  members of a set.
\<close>

theorem coordinate_equality_by_identity:
  "coordinate_eq a a \<and>
   coordinate_eq a b = (coordinate_hash a = coordinate_hash b) \<and>
   set_add a (set_add a []) = [a] \<and>
   \<not> coordinate_eq (fst (Coordinate s x y)) (fst (Coordinate (snd (Coordinate s x y)) x' y')) \<and>
   set_add (fst (Coordinate (snd (Coordinate s x y)) x' y')) (set_add (fst (Coordinate s x y)) [])
     = [fst (Coordinate s x y), fst (Coordinate (snd (Coordinate s x y)) x' y')]"
  by (simp add: Coordinate_def coordinate_eq_def coordinate_hash_def set_add_def set_contains_def)

subsection \<open>The candidate that stays in place\<close>

lemma candidate_score_stay:
  assumes wf: "well_formed s" and h: "h \<in> set (hospitals s)"
  shows "candidate_score s h (0, 0) = Some (calculate_score s)"
proof -
  define c0 where "c0 = \<lparr>coord_id = 0, coord_x = coord_x h, coord_y = coord_y h\<rparr>"
  have gd: "grid_dims (grid s) (rows s) (cols s)" and min3: "MIN_HOSPITAL_DISTANCE s = 3"
    and dh: "distinct (map coord_id (hospitals s))"
    using wf by (simp_all add: well_formed_def)
  have inb: "in_grid s (coord_x h) (coord_y h)" using wf h by (simp add: well_formed_def)
  then have hin: "0 \<le> coord_x h" "coord_x h < rows s" "0 \<le> coord_y h" "coord_y h < cols s"
    by (auto simp: in_grid_def)
  have free: "cell (upd (grid s) (coord_x h) (coord_y h) 0) (coord_x h) (coord_y h) = 0"
    using hin by (simp add: cell_upd [OF gd hin])
  have far: "all_far 3 c0 (others h (hospitals s))"
    unfolding all_far_iff
  proof
    fix k assume "k \<in> set (others h (hospitals s))"
    then have k: "k \<in> set (hospitals s)" "coord_id k \<noteq> coord_id h" by (auto simp: set_others)
    with wf h have "3 \<le> distance_to h k" by (auto simp: well_formed_def)
    then show "\<not> distance_to c0 k < 3" by (simp add: distance_to_def c0_def)
  qed
  have m: "mset (others h (hospitals s) @ [h]) = mset (hospitals s)"
    using dh h by (rule mset_others_self)
  have "calculate_score (s\<lparr>hospitals := others h (hospitals s) @ [h]\<rparr>) = calculate_score s"
    by (rule calculate_score_mset) (simp_all add: m [symmetric] del: mset_append)
  moreover have "calculate_score (s\<lparr>hospitals := others h (hospitals s) @ [c0]\<rparr>)
      = calculate_score (s\<lparr>hospitals := others h (hospitals s) @ [h]\<rparr>)"
    by (rule score_moved [where rest = "others h (hospitals s)" and rest' = "others h (hospitals s)"])
       (simp_all add: c0_def)
  ultimately have sc: "calculate_score (s\<lparr>hospitals := others h (hospitals s) @ [c0]\<rparr>) = calculate_score s"
    by simp
  show ?thesis
    using inb free far sc by (simp add: candidate_score_def Let_def min3 c0_def)
qed

lemma offsets_range: "d \<in> set offsets \<Longrightarrow> \<bar>fst d\<bar> \<le> 1 \<and> \<bar>snd d\<bar> \<le> 1"
  by (auto simp: offsets_def)

text \<open>
  C10. In a reachable model, for a hospital of the current set and a running
  \<^verbatim>\<open>best_score\<close> that is not above the score of the model (in \<^verbatim>\<open>optimize_distribution\<close> it
  is the score of the model when the search for a hospital starts): the candidate with
  offset (0, 0) changes neither \<^verbatim>\<open>best_score\<close> nor \<^verbatim>\<open>best_new_pos\<close> nor \<^verbatim>\<open>improved\<close>, and
  the search and move for the hospital either leaves the hospital set as it is or replaces
  the hospital by a new object at a different position, at most one step away in each
  axis.
\<close>

theorem committed_move_changes_position:
  assumes "reachable s" and "h \<in> set (hospitals s)" and "b \<le> calculate_score s"
  shows "(\<exists>s1. try_candidate h (0, 0) (s, b, p, i) = Inr (s1, b, p, i)) \<and>
         (\<exists>s' b' i'. relocate h (s, b, i) = Inr (s', b', i') \<and>
            (set (hospitals s') = set (hospitals s) \<or>
             (\<exists>np. set (hospitals s') = insert np (set (hospitals s) - {h}) \<and>
                   np \<notin> set (hospitals s) \<and>
                   (coord_x np \<noteq> coord_x h \<or> coord_y np \<noteq> coord_y h) \<and>
                   \<bar>coord_x np - coord_x h\<bar> \<le> 1 \<and> \<bar>coord_y np - coord_y h\<bar> \<le> 1)))"
proof
  have wf: "well_formed s" using assms(1) reachable_invariant by blast
  note stay = candidate_score_stay [OF wf assms(2)]
  have "found_after s h (0, 0) (b, p, i) = (b, p, i)"
    using assms(3) by (simp add: found_after_def stay not_less [symmetric])
  with try_candidate_step [OF wf assms(2), of "(0, 0)" "(b, p, i)"]
  show "\<exists>s1. try_candidate h (0, 0) (s, b, p, i) = Inr (s1, b, p, i)" by auto
  from relocate_step [OF wf assms(2), of b i]
  obtain s' b' where r: "relocate h (s, b, i) = Inr (s', b', (i \<or> b' < b))"
    and c: "if \<exists>d\<in>set offsets. improving s h b d
            then b' < b \<and> calculate_score s' = b' \<and> moved s h s' b'
            else same_model s s' \<and> b' = b"
    by blast
  show "\<exists>s' b' i'. relocate h (s, b, i) = Inr (s', b', i') \<and>
            (set (hospitals s') = set (hospitals s) \<or>
             (\<exists>np. set (hospitals s') = insert np (set (hospitals s) - {h}) \<and>
                   np \<notin> set (hospitals s) \<and>
                   (coord_x np \<noteq> coord_x h \<or> coord_y np \<noteq> coord_y h) \<and>
                   \<bar>coord_x np - coord_x h\<bar> \<le> 1 \<and> \<bar>coord_y np - coord_y h\<bar> \<le> 1))"
  proof (cases "\<exists>d\<in>set offsets. improving s h b d")
    case False
    with c have "same_model s s'" by simp
    then have "set (hospitals s') = set (hospitals s)" by (simp add: same_model_fields)
    with r show ?thesis by blast
  next
    case True
    with c have lt: "b' < b" and "moved s h s' b'" by simp_all
    then obtain d np where d: "d \<in> set offsets" and cs: "candidate_score s h d = Some b'"
      and np: "coord_x np = coord_x h + fst d" "coord_y np = coord_y h + snd d"
        "next_id s \<le> coord_id np"
      and st: "set (hospitals s') = insert np (set (hospitals s) - {h})"
      by (auto simp: moved_def)
    have "d \<noteq> (0, 0)"
    proof
      assume "d = (0, 0)"
      with cs stay have "b' = calculate_score s" by simp
      with lt assms(3) show False by simp
    qed
    then have ne: "coord_x np \<noteq> coord_x h \<or> coord_y np \<noteq> coord_y h"
      using np by (cases d) auto
    have new: "np \<notin> set (hospitals s)"
      using wf np(3) by (auto simp: well_formed_def)
    have "\<bar>coord_x np - coord_x h\<bar> \<le> 1 \<and> \<bar>coord_y np - coord_y h\<bar> \<le> 1"
      using offsets_range [OF d] np by simp
    with r st ne new show ?thesis by blast
  qed
qed

theorem committed_move_changes_position_witness:
  "reachable example_model \<and>
   \<lparr>coord_id = 0, coord_x = 0, coord_y = 0\<rparr> \<in> set (hospitals example_model) \<and>
   calculate_score example_model \<le> calculate_score example_model \<and>
   (\<exists>s1. try_candidate \<lparr>coord_id = 0, coord_x = 0, coord_y = 0\<rparr> (0, 0)
            (example_model, calculate_score example_model, None, False)
          = Inr (s1, calculate_score example_model, None, False)) \<and>
   (\<exists>s' b' i'. relocate \<lparr>coord_id = 0, coord_x = 0, coord_y = 0\<rparr>
            (example_model, calculate_score example_model, False) = Inr (s', b', i'))"
proof -
  have m: "\<lparr>coord_id = 0, coord_x = 0, coord_y = 0\<rparr> \<in> set (hospitals example_model)"
    by (simp add: example_model_def)
  from committed_move_changes_position [OF example_reachable m order_refl, of None False]
  show ?thesis using example_reachable m by blast
qed

subsection \<open>The reserved constant\<close>

lemma is_valid_max [simp]:
  "is_valid_hospital_position (s\<lparr>MAX_HOUSE_HOSPITAL_DISTANCE := v\<rparr>) pos = is_valid_hospital_position s pos"
  by (simp add: is_valid_hospital_position_def cong: if_cong)

lemma calculate_score_max [simp]:
  "calculate_score (s\<lparr>MAX_HOUSE_HOSPITAL_DISTANCE := v\<rparr>) = calculate_score s"
  by (simp add: calculate_score_def)

lemma try_candidate_max:
  "try_candidate h d (s\<lparr>MAX_HOUSE_HOSPITAL_DISTANCE := v\<rparr>, f) =
     map_sum id (\<lambda>(t, f'). (t\<lparr>MAX_HOUSE_HOSPITAL_DISTANCE := v\<rparr>, f')) (try_candidate h d (s, f))"
proof -
  obtain dx dy where d: "d = (dx, dy)" by (cases d)
  obtain b p i where f: "f = (b, p, i)" by (cases f)
  have v: "is_valid_hospital_position (s\<lparr>MAX_HOUSE_HOSPITAL_DISTANCE := v, next_id := n, hospitals := hs, grid := g\<rparr>) pos
      = is_valid_hospital_position (s\<lparr>next_id := n, hospitals := hs, grid := g\<rparr>) pos" for n hs g pos
    by (simp add: is_valid_hospital_position_def cong: if_cong)
  have c: "calculate_score (s\<lparr>MAX_HOUSE_HOSPITAL_DISTANCE := v, next_id := n, hospitals := hs, grid := g\<rparr>)
      = calculate_score (s\<lparr>next_id := n, hospitals := hs, grid := g\<rparr>)" for n hs g
    by (simp add: calculate_score_def)
  show ?thesis
    unfolding d f try_candidate_def Let_def Coordinate_def
    by (simp add: v c bind_err_def split: sum.splits prod.splits cong: if_cong)
qed

lemma search_max:
  "for_each (try_candidate h) ds (s\<lparr>MAX_HOUSE_HOSPITAL_DISTANCE := v\<rparr>, f) =
     map_sum id (\<lambda>(t, f'). (t\<lparr>MAX_HOUSE_HOSPITAL_DISTANCE := v\<rparr>, f'))
       (for_each (try_candidate h) ds (s, f))"
proof (induction ds arbitrary: s f)
  case Nil
  then show ?case by simp
next
  case (Cons d ds)
  show ?case
  proof (cases "try_candidate h d (s, f)")
    case (Inl e)
    then show ?thesis by (simp add: try_candidate_max)
  next
    case (Inr r)
    obtain s1 f1 where r: "r = (s1, f1)" by (cases r)
    with Inr Cons.IH [of s1 f1] show ?thesis by (simp add: try_candidate_max)
  qed
qed

lemma relocate_max:
  "relocate h (s\<lparr>MAX_HOUSE_HOSPITAL_DISTANCE := v\<rparr>, b, i) =
     map_sum id (\<lambda>(t, r). (t\<lparr>MAX_HOUSE_HOSPITAL_DISTANCE := v\<rparr>, r)) (relocate h (s, b, i))"
proof (cases "for_each (try_candidate h) offsets (s, b, None, i)")
  case (Inl e)
  then show ?thesis by (simp add: relocate_def search_max)
next
  case (Inr r)
  obtain s1 b1 p1 i1 where r: "r = (s1, b1, p1, i1)" by (cases r)
  with Inr show ?thesis
    by (cases p1)
       (simp_all add: relocate_def search_max bind_err_def Let_def split: sum.splits)
qed

lemma sweep_hospitals_max:
  "for_each relocate hs (s\<lparr>MAX_HOUSE_HOSPITAL_DISTANCE := v\<rparr>, r) =
     map_sum id (\<lambda>(t, r'). (t\<lparr>MAX_HOUSE_HOSPITAL_DISTANCE := v\<rparr>, r'))
       (for_each relocate hs (s, r))"
proof (induction hs arbitrary: s r)
  case Nil
  then show ?case by simp
next
  case (Cons h hs)
  obtain b i where r: "r = (b, i)" by (cases r)
  show ?case
  proof (cases "relocate h (s, b, i)")
    case (Inl e)
    then show ?thesis by (simp add: r relocate_max)
  next
    case (Inr q)
    obtain s1 r1 where q: "q = (s1, r1)" by (cases q)
    with Inr Cons.IH [of s1 r1] show ?thesis by (simp add: r relocate_max)
  qed
qed

lemma sweep_max:
  "sweep ord (s\<lparr>MAX_HOUSE_HOSPITAL_DISTANCE := v\<rparr>) b =
     map_sum id (\<lambda>(t, r'). (t\<lparr>MAX_HOUSE_HOSPITAL_DISTANCE := v\<rparr>, r')) (sweep ord s b)"
  by (simp add: sweep_def sweep_hospitals_max)

lemma well_formed_max: "well_formed (s\<lparr>MAX_HOUSE_HOSPITAL_DISTANCE := v\<rparr>) = well_formed s"
  by (simp add: well_formed_def in_grid_def)

lemma while_improved_max:
  assumes "well_formed s" and "iteration_order ord"
  shows "\<exists>s'. while_improved ord s (calculate_score s) = Some (Inr s') \<and>
           while_improved ord (s\<lparr>MAX_HOUSE_HOSPITAL_DISTANCE := v\<rparr>) (calculate_score s)
             = Some (Inr (s'\<lparr>MAX_HOUSE_HOSPITAL_DISTANCE := v\<rparr>))"
  using assms
proof (induction "calculate_score s" arbitrary: s rule: less_induct)
  case less
  obtain s1 b1 where sw: "sweep ord s (calculate_score s) = Inr (s1, b1, \<not> locally_optimal s)"
    and wf1: "well_formed s1" and sc1: "b1 = calculate_score s1"
    and c1: "if locally_optimal s then same_model s s1 else calculate_score s1 < calculate_score s"
    using sweep_step [OF less.prems] by blast
  have swm: "sweep ord (s\<lparr>MAX_HOUSE_HOSPITAL_DISTANCE := v\<rparr>) (calculate_score s)
      = Inr (s1\<lparr>MAX_HOUSE_HOSPITAL_DISTANCE := v\<rparr>, b1, \<not> locally_optimal s)"
    by (simp add: sweep_max sw)
  show ?case
  proof (cases "locally_optimal s")
    case True
    have "while_improved ord s (calculate_score s) = Some (Inr s1)"
      by (subst while_improved.simps) (simp add: sw True)
    moreover have "while_improved ord (s\<lparr>MAX_HOUSE_HOSPITAL_DISTANCE := v\<rparr>) (calculate_score s)
        = Some (Inr (s1\<lparr>MAX_HOUSE_HOSPITAL_DISTANCE := v\<rparr>))"
      by (subst while_improved.simps) (simp add: swm True)
    ultimately show ?thesis by blast
  next
    case False
    with c1 have lt: "calculate_score s1 < calculate_score s" by simp
    obtain s' where w: "while_improved ord s1 (calculate_score s1) = Some (Inr s')"
      and wm: "while_improved ord (s1\<lparr>MAX_HOUSE_HOSPITAL_DISTANCE := v\<rparr>) (calculate_score s1)
          = Some (Inr (s'\<lparr>MAX_HOUSE_HOSPITAL_DISTANCE := v\<rparr>))"
      using less.hyps [OF lt wf1 less.prems(2)] by blast
    have "while_improved ord s (calculate_score s) = Some (Inr s')"
      by (subst while_improved.simps) (simp add: sw False w [unfolded sc1 [symmetric]])
    moreover have "while_improved ord (s\<lparr>MAX_HOUSE_HOSPITAL_DISTANCE := v\<rparr>) (calculate_score s)
        = Some (Inr (s'\<lparr>MAX_HOUSE_HOSPITAL_DISTANCE := v\<rparr>))"
      by (subst while_improved.simps) (simp add: swm False wm [unfolded sc1 [symmetric]])
    ultimately show ?thesis by blast
  qed
qed

text \<open>
  C9. For two models that differ only in the value of \<^verbatim>\<open>MAX_HOUSE_HOSPITAL_DISTANCE\<close> (a
  reachable model with the constant set to \<open>v\<close> and to \<open>w\<close>), the scores are equal, and
  \<^verbatim>\<open>optimize_distribution\<close> returns for both, with the same hospital set and the same grid:
  the two results again differ only in the constant.
\<close>

theorem reserved_constant_noninterference:
  assumes "reachable s" and "iteration_order ord"
  shows "calculate_score (s\<lparr>MAX_HOUSE_HOSPITAL_DISTANCE := v\<rparr>)
           = calculate_score (s\<lparr>MAX_HOUSE_HOSPITAL_DISTANCE := w\<rparr>) \<and>
         (\<exists>s1 s2. optimize_distribution ord (s\<lparr>MAX_HOUSE_HOSPITAL_DISTANCE := v\<rparr>) = Some (Inr s1) \<and>
                  optimize_distribution ord (s\<lparr>MAX_HOUSE_HOSPITAL_DISTANCE := w\<rparr>) = Some (Inr s2) \<and>
                  hospitals s1 = hospitals s2 \<and> grid s1 = grid s2 \<and>
                  s2 = s1\<lparr>MAX_HOUSE_HOSPITAL_DISTANCE := w\<rparr>)"
proof -
  have wf: "well_formed s" using assms(1) reachable_invariant by blast
  from while_improved_max [OF wf assms(2), of v] obtain s'
    where a: "while_improved ord s (calculate_score s) = Some (Inr s')"
      and b: "while_improved ord (s\<lparr>MAX_HOUSE_HOSPITAL_DISTANCE := v\<rparr>) (calculate_score s)
          = Some (Inr (s'\<lparr>MAX_HOUSE_HOSPITAL_DISTANCE := v\<rparr>))"
    by blast
  from while_improved_max [OF wf assms(2), of w] a
  have c: "while_improved ord (s\<lparr>MAX_HOUSE_HOSPITAL_DISTANCE := w\<rparr>) (calculate_score s)
          = Some (Inr (s'\<lparr>MAX_HOUSE_HOSPITAL_DISTANCE := w\<rparr>))"
    by auto
  from b c show ?thesis by (simp add: optimize_distribution_def)
qed

theorem reserved_constant_noninterference_witness:
  "reachable example_model \<and> iteration_order (\<lambda>cs. cs) \<and>
   calculate_score (example_model\<lparr>MAX_HOUSE_HOSPITAL_DISTANCE := 5\<rparr>)
     = calculate_score (example_model\<lparr>MAX_HOUSE_HOSPITAL_DISTANCE := 1\<rparr>) \<and>
   (\<exists>s1 s2. optimize_distribution (\<lambda>cs. cs) (example_model\<lparr>MAX_HOUSE_HOSPITAL_DISTANCE := 5\<rparr>) = Some (Inr s1) \<and>
            optimize_distribution (\<lambda>cs. cs) (example_model\<lparr>MAX_HOUSE_HOSPITAL_DISTANCE := 1\<rparr>) = Some (Inr s2) \<and>
            hospitals s1 = hospitals s2 \<and> grid s1 = grid s2)"
  using reserved_constant_noninterference [OF example_reachable iteration_order_id, of 5 1]
    example_reachable iteration_order_id by blast

end
